theory Spec2Isabelle
  imports Complex_Main "HOL-Library.Multiset"
begin

section \<open>Floating-point numbers\<close>

text \<open>
  The embedding follows \<^verbatim>\<open>src/Proyecto.py\<close>, part 1 (the R-tree). The coordinates,
  areas and distances are Python floats, IEEE 754 binary64: a finite value, an infinity or
  nan. A finite value is its real number; the two zeros are not told apart (no operation
  of the R-tree does). Python integers (\<^verbatim>\<open>size\<close>, \<^verbatim>\<open>height\<close>, \<^verbatim>\<open>max_entries\<close>,
  \<^verbatim>\<open>k\<close>) are \<^typ>\<open>int\<close>.
\<close>

datatype pyfloat = Fin real | PInf | NInf | NaN

text \<open>The comparisons \<^verbatim>\<open><\<close> and \<^verbatim>\<open><=\<close>: false as soon as an operand is nan.\<close>

fun flt :: "pyfloat \<Rightarrow> pyfloat \<Rightarrow> bool" where
  "flt NaN b = False"
| "flt a NaN = False"
| "flt PInf b = False"
| "flt a NInf = False"
| "flt NInf b = True"
| "flt a PInf = True"
| "flt (Fin x) (Fin y) = (x < y)"

fun fle :: "pyfloat \<Rightarrow> pyfloat \<Rightarrow> bool" where
  "fle NaN b = False"
| "fle a NaN = False"
| "fle NInf b = True"
| "fle a PInf = True"
| "fle PInf b = False"
| "fle a NInf = False"
| "fle (Fin x) (Fin y) = (x \<le> y)"

definition is_nan :: "pyfloat \<Rightarrow> bool" where
  "is_nan a \<longleftrightarrow> a = NaN"

text \<open>
  Python's \<^verbatim>\<open>min(a, b)\<close> and \<^verbatim>\<open>max(a, b)\<close> keep the first argument unless the second
  is strictly smaller (greater).
\<close>

definition fmin :: "pyfloat \<Rightarrow> pyfloat \<Rightarrow> pyfloat" where
  "fmin a b = (if flt b a then b else a)"

definition fmax :: "pyfloat \<Rightarrow> pyfloat \<Rightarrow> pyfloat" where
  "fmax a b = (if flt a b then b else a)"

text \<open>
  Rounding to nearest, ties to even: \<open>quantum x\<close> is the spacing of the doubles around
  \<open>x\<close> (53 significant bits, least exponent \<open>-1074\<close>), \<open>nearest x\<close> the multiple of
  it nearest to \<open>x\<close>, and a result of magnitude \<open>2 ^ 1024\<close> or more overflows to an
  infinity.
\<close>

definition round_half_even :: "real \<Rightarrow> int" where
  "round_half_even x =
     (let f = \<lfloor>x\<rfloor>; d = x - of_int f
      in if d < 1 / 2 then f else if 1 / 2 < d then f + 1 else if even f then f else f + 1)"

definition expo :: "real \<Rightarrow> int" where
  "expo x = max (\<lfloor>log 2 \<bar>x\<bar>\<rfloor> - 52) (- 1074)"

definition quantum :: "real \<Rightarrow> real" where
  "quantum x = 2 powr of_int (expo x)"

definition nearest :: "real \<Rightarrow> real" where
  "nearest x = (if x = 0 then 0 else of_int (round_half_even (x / quantum x)) * quantum x)"

definition round_double :: "real \<Rightarrow> pyfloat" where
  "round_double x =
     (let y = nearest x
      in if 2 ^ 1024 \<le> y then PInf else if y \<le> - (2 ^ 1024) then NInf else Fin y)"

text \<open>
  Subtraction, addition and multiplication are the rounded exact results, with the IEEE
  rules for infinities and nan.
\<close>

fun fsub :: "pyfloat \<Rightarrow> pyfloat \<Rightarrow> pyfloat" where
  "fsub NaN b = NaN"
| "fsub a NaN = NaN"
| "fsub (Fin x) (Fin y) = round_double (x - y)"
| "fsub PInf PInf = NaN"
| "fsub NInf NInf = NaN"
| "fsub PInf b = PInf"
| "fsub NInf b = NInf"
| "fsub a PInf = NInf"
| "fsub a NInf = PInf"

fun fadd :: "pyfloat \<Rightarrow> pyfloat \<Rightarrow> pyfloat" where
  "fadd NaN b = NaN"
| "fadd a NaN = NaN"
| "fadd (Fin x) (Fin y) = round_double (x + y)"
| "fadd PInf NInf = NaN"
| "fadd NInf PInf = NaN"
| "fadd PInf b = PInf"
| "fadd NInf b = NInf"
| "fadd a PInf = PInf"
| "fadd a NInf = NInf"

fun fmul :: "pyfloat \<Rightarrow> pyfloat \<Rightarrow> pyfloat" where
  "fmul NaN b = NaN"
| "fmul a NaN = NaN"
| "fmul (Fin x) (Fin y) = round_double (x * y)"
| "fmul PInf (Fin y) = (if y = 0 then NaN else if 0 < y then PInf else NInf)"
| "fmul NInf (Fin y) = (if y = 0 then NaN else if 0 < y then NInf else PInf)"
| "fmul (Fin x) PInf = (if x = 0 then NaN else if 0 < x then PInf else NInf)"
| "fmul (Fin x) NInf = (if x = 0 then NaN else if 0 < x then NInf else PInf)"
| "fmul PInf PInf = PInf"
| "fmul NInf NInf = PInf"
| "fmul PInf NInf = NInf"
| "fmul NInf PInf = NInf"

text \<open>
  Errors. \<open>TypeError\<close> is what unpacking \<^verbatim>\<open>best_entry = None\<close> raises in
  \<^verbatim>\<open>_choose_leaf\<close>; \<open>AttributeError\<close> is what reading \<^verbatim>\<open>rect.min_x\<close> of an entry
  rectangle \<^verbatim>\<open>None\<close> raises in \<^verbatim>\<open>calculate_mbr\<close>; \<open>OverflowError\<close> is what the
  float power \<^verbatim>\<open>**\<close> raises when a finite operand gives an infinite result;
  \<open>ValueError\<close> is what \<^verbatim>\<open>math.sqrt\<close> raises on a negative operand. The other two
  are not Python exceptions. \<open>InvalidReference\<close> marks a path that addresses no leaf of
  the tree, which no call of the program produces. \<open>UnorderedKeys\<close> marks a sort whose
  keys include nan: \<^verbatim>\<open>list.sort\<close> then returns, but in an order that depends on its
  merge strategy, which is not modelled.
\<close>

datatype py_error =
  TypeError | AttributeError | OverflowError | ValueError | InvalidReference | UnorderedKeys

text \<open>
  \<^verbatim>\<open>a ** 2\<close> and \<^verbatim>\<open>math.sqrt\<close>, both taken as correctly rounded.
\<close>

fun fpow2 :: "pyfloat \<Rightarrow> py_error + pyfloat" where
  "fpow2 (Fin x) = (if round_double (x * x) = PInf then Inl OverflowError
                    else Inr (round_double (x * x)))"
| "fpow2 PInf = Inr PInf"
| "fpow2 NInf = Inr PInf"
| "fpow2 NaN = Inr NaN"

fun fsqrt :: "pyfloat \<Rightarrow> py_error + pyfloat" where
  "fsqrt (Fin x) = (if x < 0 then Inl ValueError else Inr (round_double (sqrt x)))"
| "fsqrt PInf = Inr PInf"
| "fsqrt NInf = Inl ValueError"
| "fsqrt NaN = Inr NaN"

subsection \<open>Properties of rounding\<close>

lemma rhe_int [simp]: "round_half_even (of_int n) = n"
  by (simp add: round_half_even_def)

lemma rhe_mono: "x \<le> y \<Longrightarrow> round_half_even x \<le> round_half_even y"
proof -
  assume xy: "x \<le> y"
  have fl: "\<lfloor>x\<rfloor> \<le> \<lfloor>y\<rfloor>" using xy by (rule floor_mono)
  have ux: "round_half_even x \<le> \<lfloor>x\<rfloor> + 1" and ly: "\<lfloor>y\<rfloor> \<le> round_half_even y"
    by (simp_all add: round_half_even_def Let_def)
  show ?thesis
  proof (cases "\<lfloor>x\<rfloor> = \<lfloor>y\<rfloor>")
    case True
    then have "x - of_int \<lfloor>x\<rfloor> \<le> y - of_int \<lfloor>y\<rfloor>" using xy by simp
    then show ?thesis using True by (auto simp: round_half_even_def Let_def)
  next
    case False
    then have "\<lfloor>x\<rfloor> + 1 \<le> \<lfloor>y\<rfloor>" using fl by simp
    then show ?thesis using ux ly by linarith
  qed
qed

lemma rhe_minus: "round_half_even (- x) = - round_half_even x"
proof (cases "x = of_int \<lfloor>x\<rfloor>")
  case True
  then have "- x = of_int (- \<lfloor>x\<rfloor>)" by simp
  then have "round_half_even (- x) = - \<lfloor>x\<rfloor>" by (simp only: rhe_int)
  moreover have "round_half_even x = \<lfloor>x\<rfloor>" using True by (metis rhe_int)
  ultimately show ?thesis by simp
next
  case False
  then have "\<lceil>x\<rceil> = \<lfloor>x\<rfloor> + 1" by (simp add: ceiling_altdef)
  then have fl: "\<lfloor>- x\<rfloor> = - \<lfloor>x\<rfloor> - 1" by (simp add: ceiling_def)
  have "of_int \<lfloor>x\<rfloor> \<le> x" by simp
  then have d: "0 < x - of_int \<lfloor>x\<rfloor>" using False by linarith
  define f where "f = \<lfloor>x\<rfloor>"
  define e where "e = x - of_int f"
  have x: "x = of_int f + e" by (simp add: e_def)
  have e: "0 < e" using d by (simp add: e_def f_def)
  have r1: "round_half_even x = (if e < 1 / 2 then f else if 1 / 2 < e then f + 1 else if even f then f else f + 1)"
    by (simp add: round_half_even_def Let_def f_def e_def)
  have "- x - of_int (- f - 1) = 1 - e" by (simp add: x)
  then have r2: "round_half_even (- x) =
      (if 1 - e < 1 / 2 then - f - 1 else if 1 / 2 < 1 - e then - f else if even (- f - 1) then - f - 1 else - f)"
    using fl by (simp add: round_half_even_def Let_def f_def)
  show ?thesis unfolding r1 r2 by auto
qed

lemma quantum_pos: "0 < quantum x"
  by (simp add: quantum_def expo_def)

lemma quantum_minus: "quantum (- x) = quantum x"
  by (simp add: quantum_def expo_def)

lemma two_powr_int: "0 \<le> n \<Longrightarrow> 2 powr of_int n = (of_int (2 ^ nat n) :: real)"
  using powr_real_of_int[of 2 n] by simp

lemma floor_log_bounds:
  assumes "0 < x"
  shows "2 powr of_int \<lfloor>log 2 x\<rfloor> \<le> x" and "x < 2 powr (of_int \<lfloor>log 2 x\<rfloor> + 1)"
proof -
  have x: "2 powr (log 2 x) = x" using assms by simp
  have "of_int \<lfloor>log 2 x\<rfloor> \<le> log 2 x" by simp
  then have "2 powr of_int \<lfloor>log 2 x\<rfloor> \<le> 2 powr (log 2 x)" by simp
  then show "2 powr of_int \<lfloor>log 2 x\<rfloor> \<le> x" using x by simp
  have "log 2 x < of_int \<lfloor>log 2 x\<rfloor> + 1" by linarith
  then have "2 powr (log 2 x) < 2 powr (of_int \<lfloor>log 2 x\<rfloor> + 1)" by simp
  then show "x < 2 powr (of_int \<lfloor>log 2 x\<rfloor> + 1)" using x by simp
qed

lemma floor_log_eq:
  assumes "2 powr of_int k \<le> x" and "x < 2 powr (of_int k + 1)"
  shows "\<lfloor>log 2 x\<rfloor> = k"
proof -
  have pos: "0 < x" using assms(1) powr_gt_zero[of 2 "of_int k"] by linarith
  have "of_int k \<le> log 2 x" using assms(1) pos by (simp add: le_log_iff)
  moreover have "log 2 x < of_int k + 1" using assms(2) pos by (simp add: log_less_iff)
  ultimately show ?thesis by linarith
qed

lemma nearest_zero [simp]: "nearest 0 = 0"
  by (simp add: nearest_def)

lemma nearest_minus: "nearest (- x) = - nearest x"
  by (simp add: nearest_def quantum_minus rhe_minus)

lemma nearest_nonneg: "0 \<le> x \<Longrightarrow> 0 \<le> nearest x"
proof -
  assume x: "0 \<le> x"
  have "0 \<le> x / quantum x" using x quantum_pos[of x] by simp
  then have "round_half_even 0 \<le> round_half_even (x / quantum x)" by (rule rhe_mono)
  then have "0 \<le> round_half_even (x / quantum x)" using rhe_int[of 0] by simp
  then show ?thesis using quantum_pos[of x] by (simp add: nearest_def)
qed

lemma quantum_expo: "quantum x = 2 powr of_int (expo x)"
  by (simp add: quantum_def)

lemma nearest_le_pow:
  assumes "0 < x" and "x \<le> 2 powr of_int k" and "expo x \<le> k"
  shows "nearest x \<le> 2 powr of_int k"
proof -
  have q: "0 < quantum x" by (rule quantum_pos)
  have "2 powr of_int k / quantum x = 2 powr of_int (k - expo x)"
    by (simp add: quantum_expo powr_diff)
  also have "\<dots> = of_int (2 ^ nat (k - expo x))"
    using assms(3) by (intro two_powr_int) simp
  finally have eq: "2 powr of_int k / quantum x = of_int (2 ^ nat (k - expo x))" .
  have "x / quantum x \<le> 2 powr of_int k / quantum x"
    using assms(2) q by (simp add: divide_right_mono)
  then have "round_half_even (x / quantum x) \<le> round_half_even (of_int (2 ^ nat (k - expo x)))"
    unfolding eq by (rule rhe_mono)
  then have "round_half_even (x / quantum x) \<le> 2 ^ nat (k - expo x)"
    by (simp only: rhe_int)
  then have "of_int (round_half_even (x / quantum x)) \<le> (of_int (2 ^ nat (k - expo x)) :: real)"
    by (simp only: of_int_le_iff)
  then have "of_int (round_half_even (x / quantum x)) * quantum x \<le> of_int (2 ^ nat (k - expo x)) * quantum x"
    using q by (simp only: mult_le_cancel_right_pos)
  also have "of_int (2 ^ nat (k - expo x)) * quantum x = 2 powr of_int k"
    using eq q by (simp add: field_simps)
  finally show ?thesis using assms(1) by (simp add: nearest_def)
qed

lemma nearest_ge_pow:
  assumes "2 powr of_int k \<le> x" and "expo x \<le> k"
  shows "2 powr of_int k \<le> nearest x"
proof -
  have pos: "0 < x" using assms(1) powr_gt_zero[of 2 "of_int k"] by linarith
  have q: "0 < quantum x" by (rule quantum_pos)
  have "2 powr of_int k / quantum x = 2 powr of_int (k - expo x)"
    by (simp add: quantum_expo powr_diff)
  also have "\<dots> = of_int (2 ^ nat (k - expo x))"
    using assms(2) by (intro two_powr_int) simp
  finally have eq: "2 powr of_int k / quantum x = of_int (2 ^ nat (k - expo x))" .
  have "2 powr of_int k / quantum x \<le> x / quantum x"
    using assms(1) q by (simp add: divide_right_mono)
  then have "round_half_even (of_int (2 ^ nat (k - expo x))) \<le> round_half_even (x / quantum x)"
    unfolding eq by (rule rhe_mono)
  then have "2 ^ nat (k - expo x) \<le> round_half_even (x / quantum x)"
    by (simp only: rhe_int)
  then have "(of_int (2 ^ nat (k - expo x)) :: real) \<le> of_int (round_half_even (x / quantum x))"
    by (simp only: of_int_le_iff)
  then have "of_int (2 ^ nat (k - expo x)) * quantum x \<le> of_int (round_half_even (x / quantum x)) * quantum x"
    using q by (simp only: mult_le_cancel_right_pos)
  moreover have "of_int (2 ^ nat (k - expo x)) * quantum x = 2 powr of_int k"
    using eq q by (simp add: field_simps)
  ultimately show ?thesis using pos by (simp add: nearest_def)
qed

lemma nearest_mono_pos:
  assumes "0 < x" and "x \<le> y"
  shows "nearest x \<le> nearest y"
proof -
  have y: "0 < y" using assms by simp
  define kx where "kx = \<lfloor>log 2 x\<rfloor>"
  define ky where "ky = \<lfloor>log 2 y\<rfloor>"
  have "log 2 x \<le> log 2 y" using assms by simp
  then have k: "kx \<le> ky" unfolding kx_def ky_def by (rule floor_mono)
  have ex: "expo x = max (kx - 52) (- 1074)" and ey: "expo y = max (ky - 52) (- 1074)"
    using assms(1) y by (simp_all add: expo_def kx_def ky_def)
  show ?thesis
  proof (cases "expo x = expo y")
    case True
    then have q: "quantum x = quantum y" by (simp add: quantum_expo)
    have "x / quantum y \<le> y / quantum y"
      using assms(2) quantum_pos[of y] by (simp add: divide_right_mono)
    then have "round_half_even (x / quantum y) \<le> round_half_even (y / quantum y)" by (rule rhe_mono)
    then have "of_int (round_half_even (x / quantum y)) * quantum y
        \<le> of_int (round_half_even (y / quantum y)) * quantum y"
      using quantum_pos[of y] by simp
    then show ?thesis using assms(1) y by (simp add: nearest_def q)
  next
    case False
    then have lt: "expo x < expo y" using k ex ey by linarith
    then have eyk: "expo y = ky - 52" and kk: "kx + 1 \<le> ky" using ex ey by linarith+
    have "x < 2 powr (of_int kx + 1)" unfolding kx_def using assms(1) by (rule floor_log_bounds(2))
    also have "\<dots> = 2 powr of_int (kx + 1)" by simp
    also have "\<dots> \<le> 2 powr of_int ky" using kk by simp
    finally have xb: "x \<le> 2 powr of_int ky" by simp
    have "expo x \<le> ky" using lt eyk by linarith
    then have a: "nearest x \<le> 2 powr of_int ky" using assms(1) xb by (intro nearest_le_pow)
    have yb: "2 powr of_int ky \<le> y" unfolding ky_def using y by (rule floor_log_bounds(1))
    have "expo y \<le> ky" using eyk by simp
    then have b: "2 powr of_int ky \<le> nearest y" using yb by (intro nearest_ge_pow)
    show ?thesis using a b by linarith
  qed
qed

lemma nearest_mono: "x \<le> y \<Longrightarrow> nearest x \<le> nearest y"
proof -
  assume xy: "x \<le> y"
  consider "0 < x" | "x \<le> 0" "0 \<le> y" | "y < 0" by linarith
  then show ?thesis
  proof cases
    case 1
    then show ?thesis using xy by (rule nearest_mono_pos)
  next
    case 2
    have "0 \<le> nearest (- x)" using 2(1) by (intro nearest_nonneg) simp
    then have "nearest x \<le> 0" by (simp add: nearest_minus)
    moreover have "0 \<le> nearest y" using 2(2) by (rule nearest_nonneg)
    ultimately show ?thesis by linarith
  next
    case 3
    have "nearest (- y) \<le> nearest (- x)" using 3 xy by (intro nearest_mono_pos) simp_all
    then show ?thesis by (simp add: nearest_minus)
  qed
qed

lemma nearest_exact:
  assumes "x / quantum x = of_int m"
  shows "nearest x = x"
proof (cases "x = 0")
  case True then show ?thesis by simp
next
  case False
  have "of_int (round_half_even (x / quantum x)) * quantum x = of_int m * quantum x"
    unfolding assms by (simp only: rhe_int)
  also have "\<dots> = x" using assms quantum_pos[of x] by (simp add: field_simps)
  finally show ?thesis using False by (simp add: nearest_def)
qed

lemma expo_small:
  assumes "\<bar>x\<bar> < 2 ^ 53" and "x \<noteq> 0"
  shows "expo x \<le> 0"
proof -
  have pos: "0 < \<bar>x\<bar>" using assms(2) by simp
  have "\<bar>x\<bar> < 2 powr 53" using assms(1) by simp
  then have "log 2 \<bar>x\<bar> < 53" using pos by (simp add: log_less_iff)
  then have "\<lfloor>log 2 \<bar>x\<bar>\<rfloor> \<le> 52" by linarith
  then show ?thesis by (simp add: expo_def)
qed

lemma nearest_int:
  assumes "\<bar>n\<bar> < 2 ^ 53"
  shows "nearest (of_int n) = of_int n"
proof (cases "n = 0")
  case True then show ?thesis by simp
next
  case False
  define x :: real where "x = of_int n"
  have "\<bar>x\<bar> = of_int \<bar>n\<bar>" by (simp add: x_def)
  also have "\<dots> < of_int (2 ^ 53)" using assms by (simp only: of_int_less_iff)
  finally have "\<bar>x\<bar> < 2 ^ 53" by simp
  then have e: "expo x \<le> 0" using False by (intro expo_small) (simp_all add: x_def)
  have "2 powr of_int (- expo x) = (of_int (2 ^ nat (- expo x)) :: real)"
    using e by (intro two_powr_int) simp
  then have "x / quantum x = of_int (n * 2 ^ nat (- expo x))"
    by (simp add: quantum_expo powr_minus field_simps x_def)
  then show ?thesis unfolding x_def[symmetric] by (rule nearest_exact)
qed

lemma nearest_pow2: "nearest (2 ^ k) = 2 ^ k"
proof -
  define x :: real where "x = 2 ^ k"
  have xp: "x = 2 powr of_int (int k)" by (simp add: x_def powr_realpow)
  have "log 2 \<bar>x\<bar> = of_int (int k)" by (simp add: x_def)
  then have "\<lfloor>log 2 \<bar>x\<bar>\<rfloor> = int k" by simp
  then have e: "expo x = int k - 52" by (simp add: expo_def)
  have q: "quantum x = 2 powr (of_int (int k) - 52)" by (simp add: quantum_expo e)
  have "x / quantum x = x / 2 powr (of_int (int k) - 52)"
    by (simp only: q)
  also have "\<dots> = 2 powr of_int (int k) / 2 powr (of_int (int k) - 52)"
    using xp by simp
  also have "\<dots> = 2 powr 52" by (simp add: powr_diff)
  also have "\<dots> = of_int (2 ^ 52)" by simp
  finally show ?thesis unfolding x_def[symmetric] by (rule nearest_exact)
qed

lemma round_double_not_nan [simp]: "round_double x \<noteq> NaN"
  by (simp add: round_double_def Let_def)

lemma round_double_zero [simp]: "round_double 0 = Fin 0"
  by (simp add: round_double_def)

lemma round_double_fin: "nearest x = x \<Longrightarrow> \<bar>x\<bar> < 2 ^ 1024 \<Longrightarrow> round_double x = Fin x"
  by (simp add: round_double_def Let_def abs_less_iff)

lemma round_double_int: "\<bar>n\<bar> < 2 ^ 53 \<Longrightarrow> round_double (of_int n) = Fin (of_int n)"
proof -
  assume a: "\<bar>n\<bar> < 2 ^ 53"
  have "\<bar>of_int n :: real\<bar> = of_int \<bar>n\<bar>" by simp
  also have "\<dots> < of_int (2 ^ 53)" using a by (simp only: of_int_less_iff)
  also have "\<dots> < 2 ^ 1024" by simp
  finally show ?thesis using nearest_int[OF a] by (intro round_double_fin)
qed

lemma round_double_pow2: "k < 1024 \<Longrightarrow> round_double (2 ^ k) = Fin (2 ^ k)"
proof -
  assume "k < 1024"
  then have "(2::real) ^ k < 2 ^ 1024" by (simp only: power_strict_increasing_iff one_less_numeral_iff semiring_norm)
  then show ?thesis using nearest_pow2[of k] by (intro round_double_fin) simp_all
qed

lemma round_double_overflow: "2 ^ 1024 \<le> x \<Longrightarrow> round_double x = PInf"
proof -
  assume "2 ^ 1024 \<le> x"
  then have "nearest (2 ^ 1024) \<le> nearest x" by (rule nearest_mono)
  then have "2 ^ 1024 \<le> nearest x" by (simp only: nearest_pow2)
  then show ?thesis by (simp add: round_double_def Let_def)
qed

lemma round_double_mono: "x \<le> y \<Longrightarrow> fle (round_double x) (round_double y)"
proof -
  assume "x \<le> y"
  then have "nearest x \<le> nearest y" by (rule nearest_mono)
  then show ?thesis by (auto simp: round_double_def Let_def)
qed

lemma round_double_nonneg: "0 \<le> x \<Longrightarrow> fle (Fin 0) (round_double x)"
  using round_double_mono[of 0 x] by simp

subsection \<open>Properties of the comparisons\<close>

lemma flt_irrefl [simp]: "\<not> flt a a"
  by (cases a) simp_all

lemma flt_trans: "flt a b \<Longrightarrow> flt b c \<Longrightarrow> flt a c"
  by (cases a; cases b; cases c) simp_all

lemma fle_flt_trans: "fle a b \<Longrightarrow> flt b c \<Longrightarrow> flt a c"
  by (cases a; cases b; cases c) simp_all

lemma flt_fle_trans: "flt a b \<Longrightarrow> fle b c \<Longrightarrow> flt a c"
  by (cases a; cases b; cases c) simp_all

lemma fle_trans: "fle a b \<Longrightarrow> fle b c \<Longrightarrow> fle a c"
  by (cases a; cases b; cases c) simp_all

lemma flt_not_fle: "flt a b \<Longrightarrow> \<not> fle b a"
  by (cases a; cases b) simp_all

lemma fle_not_flt: "fle a b \<Longrightarrow> \<not> flt b a"
  by (cases a; cases b) simp_all

lemma flt_imp_fle: "flt a b \<Longrightarrow> fle a b"
  by (cases a; cases b) simp_all

lemma fle_total: "a \<noteq> NaN \<Longrightarrow> b \<noteq> NaN \<Longrightarrow> fle a b \<or> fle b a"
  by (cases a; cases b) auto

lemma fle_refl: "a \<noteq> NaN \<Longrightarrow> fle a a"
  by (cases a) simp_all

lemma not_flt_fle: "a \<noteq> NaN \<Longrightarrow> b \<noteq> NaN \<Longrightarrow> \<not> flt a b \<Longrightarrow> fle b a"
  by (cases a; cases b) auto

lemma fle_not_nan: "fle a b \<Longrightarrow> a \<noteq> NaN \<and> b \<noteq> NaN"
  by (cases a; cases b) simp_all

lemma flt_not_nan: "flt a b \<Longrightarrow> a \<noteq> NaN \<and> b \<noteq> NaN"
  by (cases a; cases b) simp_all

section \<open>Geometry primitives\<close>

text \<open>
  The fields \<^verbatim>\<open>x\<close>, \<^verbatim>\<open>y\<close>, \<^verbatim>\<open>name\<close>, \<^verbatim>\<open>category\<close> of the dataclass
  \<^verbatim>\<open>Point\<close> carry the prefix \<open>pt_\<close>, so that \<open>x\<close> and \<open>y\<close> stay usable as variables.
\<close>

record point =
  pt_x :: pyfloat
  pt_y :: pyfloat
  pt_name :: string
  pt_category :: string

record rectangle =
  min_x :: pyfloat
  min_y :: pyfloat
  max_x :: pyfloat
  max_y :: pyfloat

text \<open>
  \<^verbatim>\<open>distance_to\<close>: the two squares are computed left to right, and the first
  \<open>OverflowError\<close> ends the call.
\<close>

definition distance_to :: "point \<Rightarrow> point \<Rightarrow> py_error + pyfloat" where
  "distance_to self other =
     (case fpow2 (fsub (pt_x self) (pt_x other)) of
        Inl e \<Rightarrow> Inl e
      | Inr dx2 \<Rightarrow>
          (case fpow2 (fsub (pt_y self) (pt_y other)) of
             Inl e \<Rightarrow> Inl e
           | Inr dy2 \<Rightarrow> fsqrt (fadd dx2 dy2)))"

definition area :: "rectangle \<Rightarrow> pyfloat" where
  "area self = fmul (fsub (max_x self) (min_x self)) (fsub (max_y self) (min_y self))"

definition contains_point :: "rectangle \<Rightarrow> point \<Rightarrow> bool" where
  "contains_point self p \<longleftrightarrow>
     (fle (min_x self) (pt_x p) \<and> fle (pt_x p) (max_x self)) \<and>
     (fle (min_y self) (pt_y p) \<and> fle (pt_y p) (max_y self))"

text \<open>\<^verbatim>\<open>a > b\<close> is \<^verbatim>\<open>b < a\<close>.\<close>

definition intersects :: "rectangle \<Rightarrow> rectangle \<Rightarrow> bool" where
  "intersects self other \<longleftrightarrow>
     \<not> (flt (max_x other) (min_x self) \<or> flt (max_x self) (min_x other) \<or>
        flt (max_y other) (min_y self) \<or> flt (max_y self) (min_y other))"

definition enlargement_needed :: "rectangle \<Rightarrow> point \<Rightarrow> pyfloat" where
  "enlargement_needed self p =
     (let new_min_x = fmin (min_x self) (pt_x p);
          new_min_y = fmin (min_y self) (pt_y p);
          new_max_x = fmax (max_x self) (pt_x p);
          new_max_y = fmax (max_y self) (pt_y p);
          new_area = fmul (fsub new_max_x new_min_x) (fsub new_max_y new_min_y)
      in fsub new_area (area self))"

definition expand_to_include :: "rectangle \<Rightarrow> point \<Rightarrow> rectangle" where
  "expand_to_include self p =
     \<lparr>min_x = fmin (min_x self) (pt_x p),
      min_y = fmin (min_y self) (pt_y p),
      max_x = fmax (max_x self) (pt_x p),
      max_y = fmax (max_y self) (pt_y p)\<rparr>"

text \<open>The rectangle invariant of the data model: \<open>min \<le> max\<close> on both axes.\<close>

definition well_formed :: "rectangle \<Rightarrow> bool" where
  "well_formed r \<longleftrightarrow> fle (min_x r) (max_x r) \<and> fle (min_y r) (max_y r)"

text \<open>A rectangle is inverted when \<open>min > max\<close> on some axis.\<close>

definition inverted :: "rectangle \<Rightarrow> bool" where
  "inverted q \<longleftrightarrow> flt (max_x q) (min_x q) \<or> flt (max_y q) (min_y q)"

section \<open>Index nodes\<close>

text \<open>
  \<^verbatim>\<open>RTreeNode\<close> has the fields \<^verbatim>\<open>is_leaf\<close>, \<^verbatim>\<open>max_entries\<close>, \<^verbatim>\<open>entries\<close> and
  \<^verbatim>\<open>mbr\<close>. The flag \<^verbatim>\<open>is_leaf\<close> decides what the entries hold (points in a leaf,
  nodes otherwise), so it is the constructor of the datatype. \<^verbatim>\<open>mbr\<close> starts as
  \<^verbatim>\<open>None\<close>. A node is owned by exactly one entry of its parent: a node is identified
  by the list of entry indices that leads to it from the root, and the root by \<open>[]\<close>.

  Rectangles are objects that \<^verbatim>\<open>expand_to_include\<close> changes in place, and root
  promotion puts the very object \<^verbatim>\<open>node.mbr\<close> into the entry of the new root for
  \<^verbatim>\<open>node\<close>. The fourth field of a node, \<open>mbr_shared\<close>, records that: it holds while the
  node's \<^verbatim>\<open>mbr\<close> is the same object as the rectangle of its parent's entry for it, so
  that enlarging the one enlarges the other. No other two places of a tree built by the
  program hold the same rectangle object.
\<close>

datatype rtree_node =
  Leaf (max_entries: int) "(rectangle \<times> point) list" (mbr: "rectangle option") (mbr_shared: bool)
| Inner (max_entries: int) "(rectangle \<times> rtree_node) list" (mbr: "rectangle option") (mbr_shared: bool)

fun is_leaf :: "rtree_node \<Rightarrow> bool" where
  "is_leaf (Leaf m es b s) = True"
| "is_leaf (Inner m es b s) = False"

text \<open>\<^verbatim>\<open>len(node.entries)\<close> and the rectangles of the entries.\<close>

fun num_entries :: "rtree_node \<Rightarrow> nat" where
  "num_entries (Leaf m es b s) = length es"
| "num_entries (Inner m es b s) = length es"

fun entry_rects :: "rtree_node \<Rightarrow> rectangle list" where
  "entry_rects (Leaf m es b s) = map fst es"
| "entry_rects (Inner m es b s) = map fst es"

definition is_full :: "rtree_node \<Rightarrow> bool" where
  "is_full node \<longleftrightarrow> int (num_entries node) \<ge> max_entries node"

text \<open>
  Python's \<^verbatim>\<open>min\<close> and \<^verbatim>\<open>max\<close> of a generator keep the first value until a later
  one is strictly smaller (greater). They are only called on a non-empty list of entries
  (on an empty one \<^verbatim>\<open>calculate_mbr\<close> returns before).
\<close>

fun py_min :: "pyfloat list \<Rightarrow> pyfloat" where
  "py_min (v # vs) = foldl fmin v vs"

fun py_max :: "pyfloat list \<Rightarrow> pyfloat" where
  "py_max (v # vs) = foldl fmax v vs"

definition bounding :: "rectangle list \<Rightarrow> rectangle" where
  "bounding rs =
     \<lparr>min_x = py_min (map min_x rs), min_y = py_min (map min_y rs),
      max_x = py_max (map max_x rs), max_y = py_max (map max_y rs)\<rparr>"

text \<open>
  \<^verbatim>\<open>calculate_mbr\<close> returns early on an empty entry list and leaves the old
  \<^verbatim>\<open>mbr\<close> in place; otherwise it stores a new rectangle object, which nothing else
  holds.
\<close>

fun calculate_mbr :: "rtree_node \<Rightarrow> rtree_node" where
  "calculate_mbr (Leaf m es b s) =
     (if es = [] then Leaf m es b s else Leaf m es (Some (bounding (map fst es))) False)"
| "calculate_mbr (Inner m es b s) =
     (if es = [] then Inner m es b s else Inner m es (Some (bounding (map fst es))) False)"

section \<open>The tree\<close>

record rtree =
  tree_max_entries :: int
  root :: rtree_node
  tree_size :: int
  height :: int

text \<open>\<^verbatim>\<open>RTree.__init__\<close>.\<close>

definition new_tree :: "int \<Rightarrow> rtree" where
  "new_tree m = \<lparr>tree_max_entries = m, root = Leaf m [] None False, tree_size = 0, height = 1\<rparr>"

fun node_at :: "rtree_node \<Rightarrow> nat list \<Rightarrow> rtree_node option" where
  "node_at n [] = Some n"
| "node_at n (i # path) =
     (case n of
        Leaf m es b s \<Rightarrow> None
      | Inner m es b s \<Rightarrow> if i < length es then node_at (snd (es ! i)) path else None)"

fun update_at :: "nat list \<Rightarrow> rtree_node \<Rightarrow> rtree_node \<Rightarrow> rtree_node" where
  "update_at [] new n = new"
| "update_at (i # path) new n =
     (case n of
        Leaf m es b s \<Rightarrow> n
      | Inner m es b s \<Rightarrow>
          if i < length es
          then Inner m (es[i := (fst (es ! i), update_at path new (snd (es ! i)))]) b s
          else n)"

text \<open>
  The loop of \<^verbatim>\<open>_choose_leaf\<close> over the entries. Its state is
  \<^verbatim>\<open>(min_enlargement, best_entry)\<close>, at first \<^verbatim>\<open>(float('inf'), None)\<close>; the best
  entry is kept as its index. The point \<open>p\<close> is \<^verbatim>\<open>Point(rect.min_x, rect.min_y, "", "")\<close>.
\<close>

fun best_loop :: "point \<Rightarrow> (rectangle \<times> 'a) list \<Rightarrow> nat \<Rightarrow> pyfloat \<times> nat option \<Rightarrow> pyfloat \<times> nat option" where
  "best_loop p [] i state = state"
| "best_loop p ((entry_rect, child_node) # es) i (min_enlargement, best) =
     (let enlargement = enlargement_needed entry_rect p in
      if flt enlargement min_enlargement
      then best_loop p es (Suc i) (enlargement, Some i)
      else best_loop p es (Suc i) (min_enlargement, best))"

definition best_entry :: "point \<Rightarrow> (rectangle \<times> 'a) list \<Rightarrow> nat option" where
  "best_entry p es = snd (best_loop p es 0 (PInf, None))"

definition corner_min :: "rectangle \<Rightarrow> point" where
  "corner_min rect = \<lparr>pt_x = min_x rect, pt_y = min_y rect, pt_name = '''', pt_category = ''''\<rparr>"

definition corner_max :: "rectangle \<Rightarrow> point" where
  "corner_max rect = \<lparr>pt_x = max_x rect, pt_y = max_y rect, pt_name = '''', pt_category = ''''\<rparr>"

text \<open>The index the loop ends with lies within the entry list.\<close>

lemma best_loop_index:
  "best_loop p es i0 (m0, b0) = (m, Some j) \<Longrightarrow> b0 = Some j \<or> (i0 \<le> j \<and> j < i0 + length es)"
proof (induction es arbitrary: i0 m0 b0)
  case Nil
  then show ?case by simp
next
  case (Cons a es)
  obtain r c where a: "a = (r, c)" by (cases a)
  show ?case
    using Cons.IH[of "Suc i0" "enlargement_needed r p" "Some i0"] Cons.IH[of "Suc i0" m0 b0] Cons.prems
    by (auto simp: a Let_def split: if_splits)
qed

lemma best_entry_index: "best_entry p es = Some i \<Longrightarrow> i < length es"
proof -
  assume "best_entry p es = Some i"
  then obtain m where "best_loop p es 0 (PInf, None) = (m, Some i)"
    by (cases "best_loop p es 0 (PInf, None)") (simp add: best_entry_def)
  from best_loop_index[OF this] show ?thesis by simp
qed

lemma size_entry_child: "i < length es \<Longrightarrow> size (snd (es ! i)) < Suc (size_list (size_prod (\<lambda>_. 0) size) es)"
proof (induction es arbitrary: i)
  case Nil then show ?case by simp
next
  case (Cons a es)
  show ?case
  proof (cases i)
    case 0
    then show ?thesis by (cases a) simp
  next
    case (Suc k)
    then have "k < length es" using Cons.prems by simp
    from Cons.IH[OF this] show ?thesis using Suc by simp
  qed
qed

text \<open>
  \<^verbatim>\<open>_choose_leaf\<close> returns the chosen leaf and, on its way down, enlarges in place
  the rectangle of each entry it follows. The model returns the node with the enlarged
  entry rectangles together with the path of the chosen leaf. \<open>share_mbr\<close> is the effect
  of the enlargement on the child whose \<^verbatim>\<open>mbr\<close> is that same rectangle object.
\<close>

fun share_mbr :: "rectangle \<Rightarrow> rtree_node \<Rightarrow> rtree_node" where
  "share_mbr r (Leaf m es b s) = (if s then Leaf m es (Some r) s else Leaf m es b s)"
| "share_mbr r (Inner m es b s) = (if s then Inner m es (Some r) s else Inner m es b s)"

function choose_leaf :: "rtree_node \<Rightarrow> rectangle \<Rightarrow> py_error + (rtree_node \<times> nat list)" where
  "choose_leaf (Leaf m es b s) rect = Inr (Leaf m es b s, [])"
| "choose_leaf (Inner m es b s) rect =
     (case best_entry (corner_min rect) es of
        None \<Rightarrow> Inl TypeError
      | Some i \<Rightarrow>
          (let entry_rect = expand_to_include (expand_to_include (fst (es ! i)) (corner_min rect))
                              (corner_max rect)
           in case choose_leaf (snd (es ! i)) rect of
                Inl e \<Rightarrow> Inl e
              | Inr (child_node, path) \<Rightarrow>
                  Inr (Inner m (es[i := (entry_rect, share_mbr entry_rect child_node)]) b s, i # path)))"
  by pat_completeness auto

termination choose_leaf
  apply (relation "measure (\<lambda>(n, rect). size n)")
   apply simp
  apply (auto dest!: best_entry_index size_entry_child)
  done

text \<open>
  \<^verbatim>\<open>_split_node\<close>. The node is given by its path; \<^verbatim>\<open>node == self.root\<close> compares
  object identities (\<^verbatim>\<open>RTreeNode\<close> defines no \<^verbatim>\<open>__eq__\<close>), which is \<open>path = []\<close>.
  The new node receives the tree's \<^verbatim>\<open>max_entries\<close> and the entries from \<open>mid\<close> on;
  when the node is not the root, the new node is referenced by nothing once the function
  returns, so the resulting tree does not hold it. At the root, the entries of the new
  root hold the \<^verbatim>\<open>mbr\<close> objects of the two nodes (\<open>shared\<close>).
\<close>

fun take_entries :: "nat \<Rightarrow> rtree_node \<Rightarrow> rtree_node" where
  "take_entries mid (Leaf m es b s) = Leaf m (take mid es) b s"
| "take_entries mid (Inner m es b s) = Inner m (take mid es) b s"

fun new_sibling :: "int \<Rightarrow> nat \<Rightarrow> rtree_node \<Rightarrow> rtree_node" where
  "new_sibling tm mid (Leaf m es b s) = Leaf tm (drop mid es) None False"
| "new_sibling tm mid (Inner m es b s) = Inner tm (drop mid es) None False"

fun shared :: "rtree_node \<Rightarrow> rtree_node" where
  "shared (Leaf m es b s) = Leaf m es b True"
| "shared (Inner m es b s) = Inner m es b True"

definition split_node :: "rtree \<Rightarrow> nat list \<Rightarrow> py_error + rtree" where
  "split_node t path =
     (case node_at (root t) path of
        None \<Rightarrow> Inl InvalidReference
      | Some n \<Rightarrow>
          (let mid = num_entries n div 2;
               new_node = calculate_mbr (new_sibling (tree_max_entries t) mid n);
               node = calculate_mbr (take_entries mid n)
           in if path = []
              then (case (mbr node, mbr new_node) of
                      (Some r1, Some r2) \<Rightarrow>
                        Inr (t\<lparr>root := calculate_mbr
                                        (Inner (tree_max_entries t)
                                           [(r1, shared node), (r2, shared new_node)] None False),
                               height := height t + 1\<rparr>)
                    | _ \<Rightarrow> Inl AttributeError)
              else Inr (t\<lparr>root := update_at path node (root t)\<rparr>)))"

text \<open>\<^verbatim>\<open>insert\<close> (the name \<open>insert\<close> is taken by sets).\<close>

definition point_rect :: "point \<Rightarrow> rectangle" where
  "point_rect p = \<lparr>min_x = pt_x p, min_y = pt_y p, max_x = pt_x p, max_y = pt_y p\<rparr>"

definition insert_point :: "rtree \<Rightarrow> point \<Rightarrow> py_error + rtree" where
  "insert_point t p =
     (let rect = point_rect p in
      case choose_leaf (root t) rect of
        Inl e \<Rightarrow> Inl e
      | Inr (root1, path) \<Rightarrow>
          (case node_at root1 path of
             Some (Leaf m es b s) \<Rightarrow>
               (let leaf = calculate_mbr (Leaf m (es @ [(rect, p)]) b s);
                    t1 = t\<lparr>root := update_at path leaf root1, tree_size := tree_size t + 1\<rparr>
                in if is_full leaf \<and> int (num_entries leaf) > tree_max_entries t
                   then split_node t1 path
                   else Inr t1)
           | _ \<Rightarrow> Inl InvalidReference))"

text \<open>
  A sequence of \<^verbatim>\<open>insert\<close> calls, as the callers' loop over the points makes; the
  first call that raises ends it.
\<close>

fun insert_all :: "rtree \<Rightarrow> point list \<Rightarrow> py_error + rtree" where
  "insert_all t [] = Inr t"
| "insert_all t (p # ps) =
     (case insert_point t p of Inl e \<Rightarrow> Inl e | Inr t1 \<Rightarrow> insert_all t1 ps)"

section \<open>Queries\<close>

text \<open>
  \<^verbatim>\<open>_range_search\<close> and \<^verbatim>\<open>_collect_all_points\<close> append to the list \<^verbatim>\<open>results\<close>
  they are given; the loop over the entries of a node is the second function of each pair.
\<close>

fun range_leaf_loop :: "(rectangle \<times> point) list \<Rightarrow> rectangle \<Rightarrow> point list \<Rightarrow> point list" where
  "range_leaf_loop [] query_rect results = results"
| "range_leaf_loop ((entry_rect, p) # es) query_rect results =
     (if \<not> intersects entry_rect query_rect then range_leaf_loop es query_rect results
      else if contains_point query_rect p then range_leaf_loop es query_rect (results @ [p])
      else range_leaf_loop es query_rect results)"

fun range_search :: "rtree_node \<Rightarrow> rectangle \<Rightarrow> point list \<Rightarrow> point list"
  and range_inner_loop :: "(rectangle \<times> rtree_node) list \<Rightarrow> rectangle \<Rightarrow> point list \<Rightarrow> point list" where
  "range_search (Leaf m es b s) query_rect results = range_leaf_loop es query_rect results"
| "range_search (Inner m es b s) query_rect results = range_inner_loop es query_rect results"
| "range_inner_loop [] query_rect results = results"
| "range_inner_loop ((entry_rect, child) # es) query_rect results =
     (if \<not> intersects entry_rect query_rect then range_inner_loop es query_rect results
      else range_inner_loop es query_rect (range_search child query_rect results))"

definition range_query :: "rtree \<Rightarrow> rectangle \<Rightarrow> point list" where
  "range_query t query_rect = range_search (root t) query_rect []"

fun collect_all_points :: "rtree_node \<Rightarrow> point list \<Rightarrow> point list"
  and collect_inner_loop :: "(rectangle \<times> rtree_node) list \<Rightarrow> point list \<Rightarrow> point list" where
  "collect_all_points (Leaf m es b s) points = points @ map snd es"
| "collect_all_points (Inner m es b s) points = collect_inner_loop es points"
| "collect_inner_loop [] points = points"
| "collect_inner_loop ((entry_rect, child) # es) points =
     collect_inner_loop es (collect_all_points child points)"

text \<open>
  Python's slice \<^verbatim>\<open>xs[:k]\<close>: for \<open>k < 0\<close> the bound counts from the end of the list.
\<close>

definition slice_to :: "'a list \<Rightarrow> int \<Rightarrow> 'a list" where
  "slice_to xs k = (if k < 0 then take (nat (int (length xs) + k)) xs else take (nat k) xs)"

text \<open>
  The list comprehension of \<^verbatim>\<open>knn_query\<close>: the distances are computed in the order of
  the points, and the first \<open>OverflowError\<close> ends the call.
\<close>

fun distances_from :: "point \<Rightarrow> point list \<Rightarrow> py_error + (point \<times> pyfloat) list" where
  "distances_from query_point [] = Inr []"
| "distances_from query_point (p # ps) =
     (case distance_to query_point p of
        Inl e \<Rightarrow> Inl e
      | Inr d \<Rightarrow>
          (case distances_from query_point ps of
             Inl e \<Rightarrow> Inl e
           | Inr ds \<Rightarrow> Inr ((p, d) # ds)))"

text \<open>
  \<^verbatim>\<open>list.sort(key=lambda x: x[1])\<close> is a stable sort by \<^verbatim>\<open><\<close> on the keys. On keys
  without nan the comparison is a total preorder, for which every stable sort returns the
  same list; it is modelled by insertion from the right.
\<close>

fun insort_distance :: "point \<times> pyfloat \<Rightarrow> (point \<times> pyfloat) list \<Rightarrow> (point \<times> pyfloat) list" where
  "insort_distance a [] = [a]"
| "insort_distance a (b # bs) =
     (if fle (snd a) (snd b) then a # b # bs else b # insort_distance a bs)"

definition sort_by_distance :: "(point \<times> pyfloat) list \<Rightarrow> (point \<times> pyfloat) list" where
  "sort_by_distance ds = foldr insort_distance ds []"

definition knn_query :: "rtree \<Rightarrow> point \<Rightarrow> int \<Rightarrow> py_error + (point \<times> pyfloat) list" where
  "knn_query t query_point k =
     (let all_points = collect_all_points (root t) [] in
      case distances_from query_point all_points of
        Inl e \<Rightarrow> Inl e
      | Inr distances \<Rightarrow>
          if \<exists>d \<in> set (map snd distances). is_nan d then Inl UnorderedKeys
          else Inr (slice_to (sort_by_distance distances) k))"

text \<open>The points reachable from the root, in traversal order.\<close>

definition reachable_points :: "rtree \<Rightarrow> point list" where
  "reachable_points t = collect_all_points (root t) []"

section \<open>Further properties of the arithmetic\<close>

text \<open>
  Integers of magnitude below \<open>2 ^ 53\<close> are doubles, so the arithmetic on small integer
  coordinates is exact.
\<close>

lemma round_double_numeral [simp]:
  "(numeral n :: int) < 2 ^ 53 \<Longrightarrow> round_double (numeral n) = Fin (numeral n)"
  using round_double_int[of "numeral n"] by simp

lemma round_double_neg_numeral [simp]:
  "(numeral n :: int) < 2 ^ 53 \<Longrightarrow> round_double (- numeral n) = Fin (- numeral n)"
  using round_double_int[of "- numeral n"] by simp

lemma round_double_one [simp]: "round_double 1 = Fin 1"
  using round_double_int[of 1] by simp

lemma round_double_neg_one [simp]: "round_double (- 1) = Fin (- 1)"
  using round_double_int[of "- 1"] by simp

text \<open>
  \<open>is_finite\<close> is a predicate of the verification: the float is neither an infinity nor
  nan. Subtraction and multiplication are monotone where they do not give nan, since
  rounding is.
\<close>

definition is_finite :: "pyfloat \<Rightarrow> bool" where
  "is_finite a = (case a of Fin x \<Rightarrow> True | PInf \<Rightarrow> False | NInf \<Rightarrow> False | NaN \<Rightarrow> False)"

lemma is_finite_iff: "is_finite a \<longleftrightarrow> (\<exists>x. a = Fin x)"
  by (cases a) (simp_all add: is_finite_def)

lemma fle_round_PInf [simp]: "fle (round_double x) PInf"
  by (cases "round_double x") simp_all

lemma fle_NInf_round [simp]: "fle NInf (round_double x)"
  by (cases "round_double x") simp_all

lemma fsub_nan_right [simp]: "fsub a NaN = NaN"
  by (cases a) simp_all

lemma fadd_nan_right [simp]: "fadd a NaN = NaN"
  by (cases a) simp_all

lemma fmul_nan_right [simp]: "fmul a NaN = NaN"
  by (cases a) simp_all

lemma fmin_le: "a \<noteq> NaN \<Longrightarrow> fle (fmin a x) a"
  by (cases a; cases x) (auto simp: fmin_def)

lemma fmax_ge: "c \<noteq> NaN \<Longrightarrow> fle c (fmax c x)"
  by (cases c; cases x) (auto simp: fmax_def)

lemma fsub_mono:
  assumes "fle a' a" and "fle a c" and "fle c c'"
  shows "fsub c a = NaN \<or> fsub c' a' = NaN \<or>
         (fle (Fin 0) (fsub c a) \<and> fle (fsub c a) (fsub c' a'))"
proof (cases "is_finite a \<and> is_finite a' \<and> is_finite c \<and> is_finite c'")
  case True
  then obtain x x' y y' where v: "a = Fin x" "a' = Fin x'" "c = Fin y" "c' = Fin y'"
    by (auto simp: is_finite_iff)
  have "0 \<le> y - x" "y - x \<le> y' - x'" using assms by (simp_all add: v)
  then show ?thesis using round_double_mono round_double_nonneg by (simp add: v)
next
  case False
  then show ?thesis using assms
    by (cases a; cases a'; cases c; cases c') (simp_all add: is_finite_iff round_double_nonneg)
qed

lemma fmul_mono:
  assumes "fle (Fin 0) w" and "fle w w'" and "fle (Fin 0) h" and "fle h h'"
  shows "fmul w h = NaN \<or> fmul w' h' = NaN \<or>
         (fle (Fin 0) (fmul w h) \<and> fle (fmul w h) (fmul w' h'))"
proof (cases "is_finite w' \<and> is_finite h'")
  case True
  then obtain x' y' where v': "w' = Fin x'" "h' = Fin y'" by (auto simp: is_finite_iff)
  obtain x y where v: "w = Fin x" "h = Fin y"
    using assms by (cases w; cases h) (simp_all add: v')
  have "0 \<le> x * y" "x * y \<le> x' * y'" using assms by (simp_all add: v v' mult_mono)
  then show ?thesis using round_double_mono round_double_nonneg by (simp add: v v')
next
  case False
  then show ?thesis using assms
    by (cases w; cases w'; cases h; cases h')
       (auto simp: is_finite_iff round_double_nonneg split: if_splits)
qed

lemma fsub_nonneg: "fle a b \<Longrightarrow> fsub b a = NaN \<or> fle (Fin 0) (fsub b a)"
  by (cases a; cases b) (simp_all add: round_double_nonneg)

lemma fmul_finite: "is_finite (fmul a b) \<Longrightarrow> is_finite a \<and> is_finite b"
  by (cases a; cases b) (auto simp: is_finite_iff split: if_splits)

lemma fsub_finite: "is_finite (fsub a b) \<Longrightarrow> is_finite a \<and> is_finite b"
  by (cases a; cases b) (auto simp: is_finite_iff)

lemma finite_between: "fle a b \<Longrightarrow> fle b c \<Longrightarrow> is_finite a \<Longrightarrow> is_finite c \<Longrightarrow> is_finite b"
  by (cases a; cases b; cases c) (auto simp: is_finite_iff)

lemma fsub_finite_not_nan: "is_finite a \<Longrightarrow> is_finite b \<Longrightarrow> fsub a b \<noteq> NaN"
  by (auto simp: is_finite_iff)

lemma fmul_finite_not_nan: "is_finite a \<Longrightarrow> is_finite b \<Longrightarrow> fmul a b \<noteq> NaN"
  by (auto simp: is_finite_iff)

lemma fle_round_mono [simp]: "x \<le> y \<Longrightarrow> fle (round_double x) (round_double y)"
  by (rule round_double_mono)

lemma fle_zero_round [simp]: "0 \<le> x \<Longrightarrow> fle (Fin 0) (round_double x)"
  by (rule round_double_nonneg)

lemma nan_not_round_double [simp]: "NaN \<noteq> round_double x"
  using round_double_not_nan[of x] by (simp only: not_sym not_False_eq_True)

lemma round_double_nonneg_cases:
  "0 \<le> x \<Longrightarrow> round_double x = PInf \<or> (\<exists>y. round_double x = Fin y \<and> 0 \<le> y)"
  using round_double_nonneg[of x] by (cases "round_double x") simp_all

lemma flt_nan_right [simp]: "\<not> flt a NaN"
  by (cases a) simp_all

lemma fle_nan_right [simp]: "\<not> fle a NaN"
  by (cases a) simp_all

text \<open>
  Python's \<^verbatim>\<open>min\<close> and \<^verbatim>\<open>max\<close> in the presence of nan: the result need not be the
  least value, but no value is strictly below it.
\<close>

lemma fmin_nan [simp]: "fmin NaN a = NaN"
  by (simp add: fmin_def)

lemma fmax_nan [simp]: "fmax NaN a = NaN"
  by (simp add: fmax_def)

lemma foldl_fmin_nan: "foldl fmin NaN vs = NaN"
  by (induction vs) simp_all

lemma foldl_fmax_nan: "foldl fmax NaN vs = NaN"
  by (induction vs) simp_all

lemma foldl_fmin_start: "\<not> flt v (foldl fmin v vs)"
proof (induction vs arbitrary: v)
  case Nil then show ?case by simp
next
  case (Cons a vs)
  have ih: "\<not> flt (fmin v a) (foldl fmin (fmin v a) vs)" by (rule Cons.IH)
  show ?case
  proof (cases "flt a v")
    case True
    then have f: "fmin v a = a" by (simp add: fmin_def)
    have "\<not> flt a (foldl fmin a vs)" using ih unfolding f .
    then have "\<not> flt v (foldl fmin a vs)" using True flt_trans by blast
    then show ?thesis by (simp add: f)
  next
    case False
    then have f: "fmin v a = v" by (simp add: fmin_def)
    show ?thesis using ih by (simp add: f)
  qed
qed

lemma foldl_fmax_start: "\<not> flt (foldl fmax v vs) v"
proof (induction vs arbitrary: v)
  case Nil then show ?case by simp
next
  case (Cons a vs)
  have ih: "\<not> flt (foldl fmax (fmax v a) vs) (fmax v a)" by (rule Cons.IH)
  show ?case
  proof (cases "flt v a")
    case True
    then have f: "fmax v a = a" by (simp add: fmax_def)
    have "\<not> flt (foldl fmax a vs) a" using ih unfolding f .
    then have "\<not> flt (foldl fmax a vs) v" using True flt_trans by blast
    then show ?thesis by (simp add: f)
  next
    case False
    then have f: "fmax v a = v" by (simp add: fmax_def)
    show ?thesis using ih by (simp add: f)
  qed
qed

lemma foldl_fmin_le: "x \<in> set vs \<Longrightarrow> \<not> flt x (foldl fmin v vs)"
proof (induction vs arbitrary: v)
  case Nil then show ?case by simp
next
  case (Cons a vs)
  show ?case
  proof (cases "x = a")
    case True
    have st: "\<not> flt (fmin v a) (foldl fmin (fmin v a) vs)" by (rule foldl_fmin_start)
    show ?thesis
    proof (cases "flt a v")
      case True
      then have f: "fmin v a = a" by (simp add: fmin_def)
      show ?thesis using st \<open>x = a\<close> by (simp add: f)
    next
      case False
      then have f: "fmin v a = v" by (simp add: fmin_def)
      have st': "\<not> flt v (foldl fmin v vs)" using st unfolding f .
      have "\<not> flt a (foldl fmin v vs)"
      proof (cases "v = NaN \<or> a = NaN")
        case True
        then show ?thesis
        proof
          assume "v = NaN" then show ?thesis by (simp add: foldl_fmin_nan)
        next
          assume "a = NaN" then show ?thesis by simp
        qed
      next
        case False
        then have "fle v a" using \<open>\<not> flt a v\<close> not_flt_fle by blast
        then show ?thesis using st' fle_flt_trans by blast
      qed
      then show ?thesis using \<open>x = a\<close> by (simp add: f)
    qed
  next
    case False
    then have "x \<in> set vs" using Cons.prems by simp
    then show ?thesis using Cons.IH by simp
  qed
qed

lemma foldl_fmax_ge: "x \<in> set vs \<Longrightarrow> \<not> flt (foldl fmax v vs) x"
proof (induction vs arbitrary: v)
  case Nil then show ?case by simp
next
  case (Cons a vs)
  show ?case
  proof (cases "x = a")
    case True
    have st: "\<not> flt (foldl fmax (fmax v a) vs) (fmax v a)" by (rule foldl_fmax_start)
    show ?thesis
    proof (cases "flt v a")
      case True
      then have f: "fmax v a = a" by (simp add: fmax_def)
      show ?thesis using st \<open>x = a\<close> by (simp add: f)
    next
      case False
      then have f: "fmax v a = v" by (simp add: fmax_def)
      have st': "\<not> flt (foldl fmax v vs) v" using st unfolding f .
      have "\<not> flt (foldl fmax v vs) a"
      proof (cases "v = NaN \<or> a = NaN")
        case True
        then show ?thesis
        proof
          assume "v = NaN" then show ?thesis by (simp add: foldl_fmax_nan)
        next
          assume "a = NaN" then show ?thesis by (cases "foldl fmax v vs") simp_all
        qed
      next
        case False
        then have "fle a v" using \<open>\<not> flt v a\<close> not_flt_fle by blast
        then show ?thesis using st' flt_fle_trans by blast
      qed
      then show ?thesis using \<open>x = a\<close> by (simp add: f)
    qed
  next
    case False
    then have "x \<in> set vs" using Cons.prems by simp
    then show ?thesis using Cons.IH by simp
  qed
qed

lemma py_min_le: "x \<in> set vs \<Longrightarrow> \<not> flt x (py_min vs)"
proof (cases vs)
  case Nil then show "x \<in> set vs \<Longrightarrow> ?thesis" by simp
next
  case (Cons v ws)
  assume "x \<in> set vs"
  then have "x = v \<or> x \<in> set ws" by (simp add: Cons)
  then show ?thesis using foldl_fmin_start[of v ws] foldl_fmin_le[of x ws v] by (auto simp: Cons)
qed

lemma py_max_ge: "x \<in> set vs \<Longrightarrow> \<not> flt (py_max vs) x"
proof (cases vs)
  case Nil then show "x \<in> set vs \<Longrightarrow> ?thesis" by simp
next
  case (Cons v ws)
  assume "x \<in> set vs"
  then have "x = v \<or> x \<in> set ws" by (simp add: Cons)
  then show ?thesis using foldl_fmax_start[of v ws] foldl_fmax_ge[of x ws v] by (auto simp: Cons)
qed

text \<open>
  The double \<open>2 ^ 512\<close>: its square is \<open>2 ^ 1024\<close>, the least magnitude that overflows.
\<close>

definition big :: real where
  "big = 2 ^ 512"

lemma round_double_big [simp]: "round_double big = Fin big"
  unfolding big_def by (rule round_double_pow2) simp

lemma round_double_big_squared [simp]: "round_double (big * big) = PInf"
proof -
  have "big * big = 2 ^ 1024" unfolding big_def by (simp flip: power_add)
  then show ?thesis by (simp add: round_double_overflow)
qed

lemma big_gt [simp]: "1 < big" "0 < big" "\<not> big < 0" "\<not> big < 1" "\<not> big \<le> 0" "\<not> big \<le> 1" "0 \<le> big" "1 \<le> big"
proof -
  have "(1::real) < 2 ^ 512" by (simp only: one_less_power one_less_numeral_iff semiring_norm) simp
  then have "1 < big" by (simp add: big_def)
  then show "1 < big" "0 < big" "\<not> big < 0" "\<not> big < 1" "\<not> big \<le> 0" "\<not> big \<le> 1" "0 \<le> big" "1 \<le> big"
    by simp_all
qed

section \<open>The scenario of the specification\<close>

text \<open>
  Points and rectangles with finite coordinates; the names of the points play no part.
  Five points on the diagonal, inserted into a tree with \<^verbatim>\<open>max_entries = 4\<close>: the fifth
  insertion splits the root leaf, and the entries of the new root hold the \<^verbatim>\<open>mbr\<close>
  objects of the two leaves.
\<close>

definition xy_point :: "real \<Rightarrow> real \<Rightarrow> point" where
  "xy_point a b = \<lparr>pt_x = Fin a, pt_y = Fin b, pt_name = '''', pt_category = ''''\<rparr>"

definition fin_rect :: "real \<Rightarrow> real \<Rightarrow> real \<Rightarrow> real \<Rightarrow> rectangle" where
  "fin_rect a b c d = \<lparr>min_x = Fin a, min_y = Fin b, max_x = Fin c, max_y = Fin d\<rparr>"

definition scenario_points :: "point list" where
  "scenario_points = [xy_point 0 0, xy_point 1 1, xy_point 2 2, xy_point 3 3, xy_point 4 4]"

definition scenario_tree :: rtree where
  "scenario_tree =
     \<lparr>tree_max_entries = 4,
      root = Inner 4
        [(fin_rect 0 0 1 1,
          Leaf 4 [(point_rect (xy_point 0 0), xy_point 0 0), (point_rect (xy_point 1 1), xy_point 1 1)]
            (Some (fin_rect 0 0 1 1)) True),
         (fin_rect 2 2 4 4,
          Leaf 4 [(point_rect (xy_point 2 2), xy_point 2 2), (point_rect (xy_point 3 3), xy_point 3 3),
                  (point_rect (xy_point 4 4), xy_point 4 4)]
            (Some (fin_rect 2 2 4 4)) True)]
        (Some (fin_rect 0 0 4 4)) False,
      tree_size = 5, height = 2\<rparr>"

lemmas eval_defs = new_tree_def xy_point_def fin_rect_def insert_point_def
      point_rect_def is_full_def split_node_def bounding_def Let_def best_entry_def
      enlargement_needed_def area_def expand_to_include_def corner_min_def corner_max_def
      fmin_def fmax_def

lemma scenario_tree_built: "insert_all (new_tree 4) scenario_points = Inr scenario_tree"
  by (simp add: scenario_points_def scenario_tree_def eval_defs)

section \<open>Rectangles\<close>

text \<open>
  Claim C10 as stated fails. The rectangle \<open>(0, 0, 2 ^ 512, 2 ^ 512)\<close> is well formed and
  the point \<open>(1, 1)\<close> lies inside it. The area of the rectangle and the area of the
  enlarged rectangle both overflow to \<^verbatim>\<open>inf\<close>, so \<^verbatim>\<open>enlargement_needed\<close> returns
  \<^verbatim>\<open>inf - inf\<close>, which is nan, and \<^verbatim>\<open>nan >= 0\<close> is false.
\<close>

theorem enlargement_needed_nan_counterexample:
  "well_formed (fin_rect 0 0 big big) \<and>
   enlargement_needed (fin_rect 0 0 big big) (xy_point 1 1) = NaN \<and>
   \<not> fle (Fin 0) (enlargement_needed (fin_rect 0 0 big big) (xy_point 1 1))"
  by (simp add: well_formed_def fin_rect_def xy_point_def enlargement_needed_def area_def fmin_def fmax_def)

text \<open>
  Claim C10, amended. For a rectangle \<open>r\<close> with \<open>min_x \<le> max_x\<close> and \<open>min_y \<le> max_y\<close> and
  every point \<open>p\<close>, \<open>enlargement_needed r p\<close> is never below zero (the comparison
  \<^verbatim>\<open>< 0\<close> is false), and it is at least zero (\<^verbatim>\<open>>= 0\<close> is true) whenever the area of
  the rectangle enlarged to include \<open>p\<close> is finite. Otherwise that area is \<^verbatim>\<open>inf\<close> or
  nan and the result may be nan. The result is the one the floats give, with every
  subtraction and product rounded.
\<close>

theorem enlargement_needed_not_negative:
  assumes "well_formed r"
  shows "\<not> flt (enlargement_needed r p) (Fin 0) \<and>
         (is_finite (area (expand_to_include r p)) \<longrightarrow> fle (Fin 0) (enlargement_needed r p))"
proof -
  define a c b d where "a = min_x r" and "c = max_x r" and "b = min_y r" and "d = max_y r"
  define a' c' b' d' where "a' = fmin a (pt_x p)" and "c' = fmax c (pt_x p)"
    and "b' = fmin b (pt_y p)" and "d' = fmax d (pt_y p)"
  define w h w' h' where "w = fsub c a" and "h = fsub d b" and "w' = fsub c' a'" and "h' = fsub d' b'"
  have wf: "fle a c" "fle b d" using assms by (simp_all add: well_formed_def a_def b_def c_def d_def)
  have nn: "a \<noteq> NaN" "c \<noteq> NaN" "b \<noteq> NaN" "d \<noteq> NaN" using wf fle_not_nan by blast+
  have le: "fle a' a" "fle c c'" "fle b' b" "fle d d'"
    unfolding a'_def c'_def b'_def d'_def using nn by (simp_all add: fmin_le fmax_ge)
  have enl: "enlargement_needed r p = fsub (fmul w' h') (fmul w h)"
    by (simp add: enlargement_needed_def area_def Let_def w_def h_def w'_def h'_def
        a'_def b'_def c'_def d'_def a_def b_def c_def d_def)
  have ar: "area (expand_to_include r p) = fmul w' h'"
    by (simp add: area_def expand_to_include_def w'_def h'_def a'_def b'_def c'_def d'_def
        a_def b_def c_def d_def)
  have W: "w = NaN \<or> w' = NaN \<or> (fle (Fin 0) w \<and> fle w w')"
    unfolding w_def w'_def using le(1) wf(1) le(2) by (rule fsub_mono)
  have H: "h = NaN \<or> h' = NaN \<or> (fle (Fin 0) h \<and> fle h h')"
    unfolding h_def h'_def using le(3) wf(2) le(4) by (rule fsub_mono)
  have first: "\<not> flt (fsub (fmul w' h') (fmul w h)) (Fin 0)"
  proof (cases "w = NaN \<or> w' = NaN \<or> h = NaN \<or> h' = NaN")
    case True
    then have "fmul w h = NaN \<or> fmul w' h' = NaN"
      by (cases w; cases h; cases w'; cases h') auto
    then have "fsub (fmul w' h') (fmul w h) = NaN"
      by (cases "fmul w' h'"; cases "fmul w h") auto
    then show ?thesis by simp
  next
    case False
    then have "fle (Fin 0) w" "fle w w'" "fle (Fin 0) h" "fle h h'" using W H by auto
    then have "fmul w h = NaN \<or> fmul w' h' = NaN \<or> fle (fmul w h) (fmul w' h')"
      using fmul_mono by blast
    then have "fsub (fmul w' h') (fmul w h) = NaN \<or> fle (Fin 0) (fsub (fmul w' h') (fmul w h))"
      using fsub_nonneg[of "fmul w h" "fmul w' h'"] by auto
    then show ?thesis using fle_not_flt by auto
  qed
  have second: "fle (Fin 0) (fsub (fmul w' h') (fmul w h))" if fin: "is_finite (fmul w' h')"
  proof -
    have f': "is_finite w'" "is_finite h'" using fin fmul_finite by blast+
    then have fc: "is_finite c'" "is_finite a'" "is_finite d'" "is_finite b'"
      unfolding w'_def h'_def using fsub_finite by blast+
    have "fle a' c" "fle a c'" "fle b' d" "fle b d'"
      using le wf fle_trans by blast+
    then have f: "is_finite a" "is_finite c" "is_finite b" "is_finite d"
      using finite_between le wf fc by blast+
    then have wn: "w \<noteq> NaN" "h \<noteq> NaN" "w' \<noteq> NaN" "h' \<noteq> NaN"
      using f' by (auto simp: w_def h_def is_finite_iff)
    then have wh: "fle (Fin 0) w" "fle w w'" "fle (Fin 0) h" "fle h h'" using W H by auto
    have "is_finite w" "is_finite h"
      using wh f' finite_between[of "Fin 0"] by (auto simp: is_finite_iff)
    then have "is_finite (fmul w h) \<or> fmul w h = PInf \<or> fmul w h = NInf"
      by (cases "fmul w h") (auto simp: is_finite_iff)
    moreover have "fmul w h \<noteq> NaN" using \<open>is_finite w\<close> \<open>is_finite h\<close> by (rule fmul_finite_not_nan)
    ultimately have "fsub (fmul w' h') (fmul w h) \<noteq> NaN"
      using fin by (cases "fmul w h") (auto simp: is_finite_iff)
    then show ?thesis using first not_flt_fle[of "fsub (fmul w' h') (fmul w h)" "Fin 0"] by simp
  qed
  show ?thesis unfolding enl ar using first second by blast
qed

text \<open>
  An instance: enlarging \<open>(0, 0, 2, 1)\<close> to include \<open>(3, 3)\<close> takes the area from \<open>2\<close> to
  \<open>9\<close>.
\<close>

theorem enlargement_needed_not_negative_witness:
  "well_formed (fin_rect 0 0 2 1) \<and> is_finite (area (expand_to_include (fin_rect 0 0 2 1) (xy_point 3 3))) \<and>
   enlargement_needed (fin_rect 0 0 2 1) (xy_point 3 3) = Fin 7 \<and>
   fle (Fin 0) (enlargement_needed (fin_rect 0 0 2 1) (xy_point 3 3))"
proof -
  have h: "well_formed (fin_rect 0 0 2 1)" by (simp add: well_formed_def fin_rect_def)
  have f: "is_finite (area (expand_to_include (fin_rect 0 0 2 1) (xy_point 3 3)))"
    by (simp add: is_finite_iff area_def expand_to_include_def fin_rect_def xy_point_def fmin_def fmax_def)
  have v: "enlargement_needed (fin_rect 0 0 2 1) (xy_point 3 3) = Fin 7"
    by (simp add: enlargement_needed_def area_def fin_rect_def xy_point_def fmin_def fmax_def)
  show ?thesis using h f v enlargement_needed_not_negative[OF h, of "xy_point 3 3"] by blast
qed




section \<open>Nearest neighbours\<close>

text \<open>
  The list comprehension returns exactly when every distance is computed, and then pairs
  the points, in their order, with their distances. The sort keeps the pairs and orders
  them by \<^verbatim>\<open><=\<close> on the distances.
\<close>

lemma distances_from_spec:
  "distances_from q ps = Inr ds \<Longrightarrow>
     map fst ds = ps \<and> (\<forall>(p, d) \<in> set ds. distance_to q p = Inr d)"
proof (induction ps arbitrary: ds)
  case Nil
  then show ?case by simp
next
  case (Cons p ps)
  then show ?case by (auto split: sum.splits)
qed

lemma distances_from_returns:
  "(\<exists>ds. distances_from q ps = Inr ds \<and> (\<forall>d \<in> set (map snd ds). d \<noteq> NaN)) \<longleftrightarrow>
   (\<forall>p \<in> set ps. \<exists>d. distance_to q p = Inr d \<and> d \<noteq> NaN)"
proof (induction ps)
  case Nil
  then show ?case by simp
next
  case (Cons p ps)
  show ?case
  proof
    assume "\<exists>ds. distances_from q (p # ps) = Inr ds \<and> (\<forall>d \<in> set (map snd ds). d \<noteq> NaN)"
    then obtain ds where ds: "distances_from q (p # ps) = Inr ds" "\<forall>d \<in> set (map snd ds). d \<noteq> NaN"
      by blast
    then obtain d ds' where "distance_to q p = Inr d" "distances_from q ps = Inr ds'" "ds = (p, d) # ds'"
      by (auto split: sum.splits)
    then show "\<forall>p \<in> set (p # ps). \<exists>d. distance_to q p = Inr d \<and> d \<noteq> NaN"
      using ds(2) Cons.IH by auto
  next
    assume a: "\<forall>p \<in> set (p # ps). \<exists>d. distance_to q p = Inr d \<and> d \<noteq> NaN"
    then obtain d where d: "distance_to q p = Inr d" "d \<noteq> NaN" by auto
    obtain ds' where ds': "distances_from q ps = Inr ds'" "\<forall>d \<in> set (map snd ds'). d \<noteq> NaN"
      using a Cons.IH by auto
    show "\<exists>ds. distances_from q (p # ps) = Inr ds \<and> (\<forall>d \<in> set (map snd ds). d \<noteq> NaN)"
      using d ds' by auto
  qed
qed

lemma mset_insort_distance: "mset (insort_distance a bs) = add_mset a (mset bs)"
  by (induction bs) auto

lemma mset_sort_by_distance: "mset (sort_by_distance ds) = mset ds"
  unfolding sort_by_distance_def by (induction ds) (simp_all add: mset_insort_distance)

lemma length_sort_by_distance: "length (sort_by_distance ds) = length ds"
  using mset_sort_by_distance[of ds] by (metis size_mset)

lemma set_insort_distance: "set (insort_distance a bs) = insert a (set bs)"
  using mset_insort_distance[of a bs] by (metis set_mset_add_mset_insert set_mset_mset)

lemma sorted_insort_distance:
  assumes "snd a \<noteq> NaN" and "\<forall>b \<in> set bs. snd b \<noteq> NaN"
    and "sorted_wrt (\<lambda>x y. fle (snd x) (snd y)) bs"
  shows "sorted_wrt (\<lambda>x y. fle (snd x) (snd y)) (insort_distance a bs)"
  using assms(2,3)
proof (induction bs)
  case Nil
  then show ?case by simp
next
  case (Cons b bs)
  show ?case
  proof (cases "fle (snd a) (snd b)")
    case True
    then have "\<forall>y \<in> set (b # bs). fle (snd a) (snd y)"
      using Cons.prems(2) fle_trans by auto
    then show ?thesis using True Cons.prems(2) by simp
  next
    case False
    then have "fle (snd b) (snd a)" using assms(1) Cons.prems(1) fle_total by auto
    then have "\<forall>y \<in> set (insort_distance a bs). fle (snd b) (snd y)"
      using Cons.prems(2) by (auto simp: set_insort_distance)
    moreover have "sorted_wrt (\<lambda>x y. fle (snd x) (snd y)) (insort_distance a bs)"
      using Cons.IH Cons.prems by simp
    ultimately show ?thesis using False by simp
  qed
qed

lemma sorted_sort_by_distance:
  "\<forall>b \<in> set ds. snd b \<noteq> NaN \<Longrightarrow> sorted_wrt (\<lambda>x y. fle (snd x) (snd y)) (sort_by_distance ds)"
proof (induction ds)
  case Nil
  then show ?case by (simp add: sort_by_distance_def)
next
  case (Cons a ds)
  have s: "sort_by_distance (a # ds) = insort_distance a (sort_by_distance ds)"
    by (simp add: sort_by_distance_def)
  have "\<forall>b \<in> set (sort_by_distance ds). snd b \<noteq> NaN"
    using Cons.prems mset_sort_by_distance[of ds] by (metis list.set_intros(2) set_mset_mset)
  then show ?case unfolding s using Cons by (intro sorted_insort_distance) simp_all
qed

lemma knn_query_returns:
  "knn_query t q k = Inr res \<longleftrightarrow>
     (\<exists>ds. distances_from q (reachable_points t) = Inr ds \<and> (\<forall>d \<in> set (map snd ds). d \<noteq> NaN) \<and>
           res = slice_to (sort_by_distance ds) k)"
  by (cases "distances_from q (reachable_points t)")
     (force simp: knn_query_def reachable_points_def Let_def is_nan_def)+

lemma knn_query_returns_iff:
  "(\<exists>res. knn_query t q k = Inr res) \<longleftrightarrow>
   (\<forall>p \<in> set (reachable_points t). \<exists>d. distance_to q p = Inr d \<and> d \<noteq> NaN)"
  using distances_from_returns[of q "reachable_points t"] by (auto simp: knn_query_returns)

text \<open>The distances from the origin in the scenario.\<close>

lemma scenario_reachable: "reachable_points scenario_tree = scenario_points"
  by (simp add: scenario_points_def scenario_tree_def reachable_points_def)

lemma scenario_distances:
  "distances_from (xy_point 0 0) scenario_points =
     Inr [(xy_point 0 0, Fin 0), (xy_point 1 1, round_double (sqrt 2)),
          (xy_point 2 2, round_double (sqrt 8)), (xy_point 3 3, round_double (sqrt 18)),
          (xy_point 4 4, round_double (sqrt 32))]"
  by (simp add: scenario_points_def xy_point_def distance_to_def)

lemma scenario_distances_defined:
  "\<forall>p \<in> set (reachable_points scenario_tree). \<exists>d. distance_to (xy_point 0 0) p = Inr d \<and> d \<noteq> NaN"
  by (simp add: scenario_reachable scenario_points_def xy_point_def distance_to_def)

lemma scenario_knn:
  "knn_query scenario_tree (xy_point 0 0) k =
     Inr (slice_to [(xy_point 0 0, Fin 0), (xy_point 1 1, round_double (sqrt 2)),
          (xy_point 2 2, round_double (sqrt 8)), (xy_point 3 3, round_double (sqrt 18)),
          (xy_point 4 4, round_double (sqrt 32))] k)"
proof -
  have "sort_by_distance [(xy_point 0 0, Fin 0), (xy_point 1 1, round_double (sqrt 2)),
          (xy_point 2 2, round_double (sqrt 8)), (xy_point 3 3, round_double (sqrt 18)),
          (xy_point 4 4, round_double (sqrt 32))] =
        [(xy_point 0 0, Fin 0), (xy_point 1 1, round_double (sqrt 2)),
          (xy_point 2 2, round_double (sqrt 8)), (xy_point 3 3, round_double (sqrt 18)),
          (xy_point 4 4, round_double (sqrt 32))]"
    by (simp add: sort_by_distance_def)
  then show ?thesis
    using scenario_distances
    by (simp add: knn_query_def scenario_reachable[unfolded reachable_points_def] Let_def is_nan_def)
qed

text \<open>
  Between two points with finite coordinates \<^verbatim>\<open>distance_to\<close> either raises
  \<open>OverflowError\<close> or returns a float that is not negative, and so not nan.
\<close>

lemma distance_to_finite:
  assumes "pt_x p = Fin a" and "pt_y p = Fin b" and "pt_x q = Fin c" and "pt_y q = Fin d"
  shows "distance_to p q = Inl OverflowError \<or>
         (\<exists>r. distance_to p q = Inr r \<and> fle (Fin 0) r)"
proof -
  obtain u where u: "fsub (pt_x p) (pt_x q) = Fin u \<or> fsub (pt_x p) (pt_x q) = PInf \<or> fsub (pt_x p) (pt_x q) = NInf"
    using assms by (cases "round_double (a - c)") simp_all
  obtain v where v: "fsub (pt_y p) (pt_y q) = Fin v \<or> fsub (pt_y p) (pt_y q) = PInf \<or> fsub (pt_y p) (pt_y q) = NInf"
    using assms by (cases "round_double (b - d)") simp_all
  have sq: "fpow2 z = Inl OverflowError \<or> fpow2 z = Inr PInf \<or> (\<exists>y. fpow2 z = Inr (Fin y) \<and> 0 \<le> y)"
    if "z \<noteq> NaN" for z
  proof (cases z)
    case (Fin x)
    then show ?thesis using round_double_nonneg_cases[of "x * x"] by auto
  qed (use that in simp_all)
  have x2: "fpow2 (fsub (pt_x p) (pt_x q)) = Inl OverflowError \<or> fpow2 (fsub (pt_x p) (pt_x q)) = Inr PInf \<or>
      (\<exists>y. fpow2 (fsub (pt_x p) (pt_x q)) = Inr (Fin y) \<and> 0 \<le> y)"
    using u by (intro sq) auto
  have y2: "fpow2 (fsub (pt_y p) (pt_y q)) = Inl OverflowError \<or> fpow2 (fsub (pt_y p) (pt_y q)) = Inr PInf \<or>
      (\<exists>y. fpow2 (fsub (pt_y p) (pt_y q)) = Inr (Fin y) \<and> 0 \<le> y)"
    using v by (intro sq) auto
  have rt: "\<exists>r. fsqrt (fadd (Fin s) (Fin t)) = Inr r \<and> fle (Fin 0) r" if "0 \<le> s" "0 \<le> t" for s t
    using round_double_nonneg_cases[of "s + t"] that round_double_nonneg[of "sqrt y" for y]
    by auto
  show ?thesis
    using x2 y2 rt by (auto simp: distance_to_def)
qed







section \<open>Range search\<close>

text \<open>
  Predicates of the verification, not of the source. \<open>covers\<close>: no coordinate of the
  point is strictly outside the rectangle (for coordinates without nan, the rectangle
  contains the point). \<open>covered\<close>: the rectangle of every leaf entry is the degenerate
  rectangle of its point, and the rectangle of every entry of an inner node covers every
  point below that entry. On such a node range search prunes nothing that the query
  rectangle contains.
\<close>

definition covers :: "rectangle \<Rightarrow> point \<Rightarrow> bool" where
  "covers r p \<longleftrightarrow>
     \<not> flt (pt_x p) (min_x r) \<and> \<not> flt (max_x r) (pt_x p) \<and>
     \<not> flt (pt_y p) (min_y r) \<and> \<not> flt (max_y r) (pt_y p)"

fun covered :: "rtree_node \<Rightarrow> bool"
  and covered_entries :: "(rectangle \<times> rtree_node) list \<Rightarrow> bool" where
  "covered (Leaf m es b s) = (\<forall>(r, p) \<in> set es. r = point_rect p)"
| "covered (Inner m es b s) = covered_entries es"
| "covered_entries [] = True"
| "covered_entries ((r, child) # es) =
     (covered child \<and> (\<forall>p \<in> set (collect_all_points child []). covers r p) \<and>
      covered_entries es)"

lemma collect_acc_all:
  fixes d :: "point list"
  shows "\<forall>acc. collect_all_points n acc = acc @ collect_all_points n []"
    and "\<forall>acc. collect_inner_loop es acc = acc @ collect_inner_loop es []"
proof (induction n d and es d rule: collect_all_points_collect_inner_loop.induct)
  case (1 m es b s points)
  show ?case by simp
next
  case (2 m es b s points)
  show ?case unfolding collect_all_points.simps by (rule "2.IH")
next
  case (3 points)
  show ?case by simp
next
  case (4 entry_rect child es points)
  show ?case
  proof
    fix acc
    have "collect_inner_loop es (collect_all_points child acc) =
          collect_all_points child acc @ collect_inner_loop es []"
      using "4.IH"(2) by blast
    moreover have "collect_inner_loop es (collect_all_points child []) =
          collect_all_points child [] @ collect_inner_loop es []"
      using "4.IH"(2) by blast
    moreover have "collect_all_points child acc = acc @ collect_all_points child []"
      using "4.IH"(1) by blast
    ultimately show "collect_inner_loop ((entry_rect, child) # es) acc =
          acc @ collect_inner_loop ((entry_rect, child) # es) []"
      by simp
  qed
qed

lemma collect_acc:
  "collect_all_points n acc = acc @ collect_all_points n []"
  "collect_inner_loop es acc = acc @ collect_inner_loop es []"
  using collect_acc_all by blast+

lemma covering_intersects:
  "covers r p \<Longrightarrow> contains_point q p \<Longrightarrow> intersects r q"
  unfolding covers_def contains_point_def intersects_def
  using fle_flt_trans flt_fle_trans by blast

lemma covers_point_rect: "covers (point_rect p) p"
  by (simp add: covers_def point_rect_def)

lemma range_leaf_loop_filter:
  "\<forall>(r, p) \<in> set es. r = point_rect p \<Longrightarrow>
   range_leaf_loop es q acc = acc @ filter (contains_point q) (map snd es)"
proof (induction es q acc rule: range_leaf_loop.induct)
  case (1 query_rect results)
  then show ?case by simp
next
  case (2 entry_rect p es query_rect results)
  have r: "entry_rect = point_rect p" using "2.prems" by simp
  have "contains_point query_rect p \<Longrightarrow> intersects entry_rect query_rect"
    unfolding r using covers_point_rect by (rule covering_intersects)
  then show ?case using 2 by auto
qed

lemma range_search_filter:
  "covered n \<Longrightarrow> range_search n q acc = acc @ filter (contains_point q) (collect_all_points n [])"
  "covered_entries es \<Longrightarrow> range_inner_loop es q acc = acc @ filter (contains_point q) (collect_inner_loop es [])"
proof (induction n q acc and es q acc rule: range_search_range_inner_loop.induct)
  case (1 m es b s query_rect results)
  then show ?case by (simp add: range_leaf_loop_filter)
next
  case (2 m es b s query_rect results)
  then show ?case by simp
next
  case (3 query_rect results)
  then show ?case by simp
next
  case (4 entry_rect child es query_rect results)
  have cov: "covered child" "covered_entries es"
    and inside: "\<forall>p \<in> set (collect_all_points child []). covers entry_rect p"
    using "4.prems" by simp_all
  have split: "collect_inner_loop ((entry_rect, child) # es) [] =
      collect_all_points child [] @ collect_inner_loop es []"
    using collect_acc(2)[of es "collect_all_points child []"] by simp
  show ?case
  proof (cases "intersects entry_rect query_rect")
    case True
    then show ?thesis
      using "4.IH"(2)[OF _ cov(1)] "4.IH"(3)[OF _ cov(2)] split by simp
  next
    case False
    have "filter (contains_point query_rect) (collect_all_points child []) = []"
      using inside False covering_intersects by (auto simp: filter_empty_conv)
    then show ?thesis
      using False "4.IH"(1)[OF _ cov(2)] split by simp
  qed
qed

section \<open>Trees built by insertion\<close>

text \<open>
  Predicates of the verification, not of the source. \<open>leaf_sound\<close>: a leaf whose
  entry rectangles are those of its points and whose \<^verbatim>\<open>mbr\<close>, when it has entries, is
  their bounding rectangle. \<open>built\<close>: the shape insertion produces, a leaf root or an
  inner root with two leaves whose points the entry rectangles cover. \<open>enlarged\<close> names
  the two calls of \<^verbatim>\<open>expand_to_include\<close> that \<^verbatim>\<open>_choose_leaf\<close> makes on the chosen
  entry.
\<close>

fun leaf_sound :: "rtree_node \<Rightarrow> bool" where
  "leaf_sound (Leaf m es b s) =
     ((\<forall>(r, p) \<in> set es. r = point_rect p) \<and> (es \<noteq> [] \<longrightarrow> b = Some (bounding (map fst es))))"
| "leaf_sound (Inner m es b s) = False"

definition built :: "rtree \<Rightarrow> bool" where
  "built t \<longleftrightarrow>
     (case root t of
        Leaf m es b s \<Rightarrow> leaf_sound (root t)
      | Inner m es b s \<Rightarrow>
          length es = 2 \<and>
          (\<forall>(r, c) \<in> set es. leaf_sound c \<and>
             (\<forall>p \<in> set (collect_all_points c []). covers r p)))"

lemma bounding_covers:
  assumes "\<forall>(r, p) \<in> set es. r = point_rect p" and "(r0, p0) \<in> set es"
  shows "covers (bounding (map fst es)) p0"
proof -
  have r0: "r0 = point_rect p0" using assms by auto
  have m: "r0 \<in> set (map fst es)" using assms(2) by force
  have "\<not> flt (min_x r0) (py_min (map min_x (map fst es)))"
    by (rule py_min_le) (use m in force)
  moreover have "\<not> flt (min_y r0) (py_min (map min_y (map fst es)))"
    by (rule py_min_le) (use m in force)
  moreover have "\<not> flt (py_max (map max_x (map fst es))) (max_x r0)"
    by (rule py_max_ge) (use m in force)
  moreover have "\<not> flt (py_max (map max_y (map fst es))) (max_y r0)"
    by (rule py_max_ge) (use m in force)
  ultimately show ?thesis by (simp add: covers_def bounding_def r0 point_rect_def)
qed

lemma leaf_sound_covers:
  assumes "leaf_sound n" and "mbr n = Some r"
  shows "\<forall>p \<in> set (collect_all_points n []). covers r p"
proof (cases n)
  case (Leaf m es b s)
  show ?thesis
  proof (cases "es = []")
    case True then show ?thesis by (simp add: Leaf)
  next
    case False
    then have "r = bounding (map fst es)" using assms by (simp add: Leaf)
    then show ?thesis using assms(1) bounding_covers[of es] by (auto simp: Leaf)
  qed
next
  case (Inner m es b s)
  then show ?thesis using assms by simp
qed

lemma leaf_sound_append:
  "leaf_sound (Leaf m es b s) \<Longrightarrow> leaf_sound (calculate_mbr (Leaf m (es @ [(point_rect p, p)]) b' s'))"
  by simp

lemma leaf_sound_take: "leaf_sound n \<Longrightarrow> leaf_sound (calculate_mbr (take_entries k n))"
  by (cases n) (auto dest: in_set_takeD)

lemma leaf_sound_sibling: "leaf_sound n \<Longrightarrow> leaf_sound (calculate_mbr (new_sibling tm k n))"
  by (cases n) (auto dest: in_set_dropD)

lemma leaf_sound_shared [simp]: "leaf_sound (shared n) = leaf_sound n"
  by (cases n) simp_all

lemma collect_shared [simp]: "collect_all_points (shared n) acc = collect_all_points n acc"
  by (cases n) simp_all

lemma mbr_take: "mbr n = Some r \<Longrightarrow> \<exists>r'. mbr (calculate_mbr (take_entries k n)) = Some r'"
  by (cases n) auto

lemma mbr_sibling: "k < num_entries n \<Longrightarrow> \<exists>r'. mbr (calculate_mbr (new_sibling tm k n)) = Some r'"
  by (cases n) auto

lemma collect_take_drop:
  "is_leaf n \<Longrightarrow> collect_all_points (calculate_mbr (take_entries k n)) [] @
     collect_all_points (calculate_mbr (new_sibling tm k n)) [] = collect_all_points n []"
  by (cases n) (auto simp flip: map_append)

lemma collect_take_subset:
  "is_leaf n \<Longrightarrow> mset (collect_all_points (calculate_mbr (take_entries k n)) []) \<subseteq>#
     mset (collect_all_points n [])"
  using collect_take_drop[of n k 0] by (metis mset_append mset_subset_eq_add_left)

lemma covers_expand:
  "covers r p \<Longrightarrow> covers (expand_to_include r a) p"
  unfolding covers_def expand_to_include_def fmin_def fmax_def
  using flt_trans by auto

lemma covers_expand_self:
  "pt_x a = pt_x p \<Longrightarrow> pt_y a = pt_y p \<Longrightarrow> covers (expand_to_include r a) p"
  by (auto simp: covers_def expand_to_include_def fmin_def fmax_def)

lemma covers_expand_new:
  "covers (expand_to_include (expand_to_include r (corner_min (point_rect p)))
     (corner_max (point_rect p))) p"
  by (intro covers_expand covers_expand_self) (simp_all add: corner_min_def point_rect_def)

definition enlarged :: "rectangle \<Rightarrow> rectangle \<Rightarrow> rectangle" where
  "enlarged entry_rect rect =
     expand_to_include (expand_to_include entry_rect (corner_min rect)) (corner_max rect)"

lemma choose_leaf_none:
  "best_entry (corner_min rect) es = None \<Longrightarrow> choose_leaf (Inner m es b s) rect = Inl TypeError"
  by simp

lemma choose_leaf_leaf_child:
  assumes "best_entry (corner_min rect) es = Some i" and "is_leaf (snd (es ! i))"
  shows "choose_leaf (Inner m es b s) rect =
           Inr (Inner m (es[i := (enlarged (fst (es ! i)) rect,
                                  share_mbr (enlarged (fst (es ! i)) rect) (snd (es ! i)))]) b s, [i])"
proof -
  obtain m' es' b' s' where c: "snd (es ! i) = Leaf m' es' b' s'"
    using assms(2) by (cases "snd (es ! i)") auto
  show ?thesis using assms(1) by (simp add: c Let_def enlarged_def)
qed

lemma insert_point_leaf_root:
  assumes "root t = Leaf m es b s"
  shows "insert_point t p =
     (let leaf = calculate_mbr (Leaf m (es @ [(point_rect p, p)]) b s);
          t1 = t\<lparr>root := leaf, tree_size := tree_size t + 1\<rparr>
      in if is_full leaf \<and> int (num_entries leaf) > tree_max_entries t
         then split_node t1 [] else Inr t1)"
  using assms by (simp add: insert_point_def Let_def)

lemma insert_point_inner_root:
  assumes "root t = Inner m es b s" and "best_entry (corner_min (point_rect p)) es = Some i"
    and "snd (es ! i) = Leaf m' es' b' s'"
  shows "insert_point t p =
     (let leaf = Leaf m' (es' @ [(point_rect p, p)])
                   (Some (bounding (map fst (es' @ [(point_rect p, p)])))) False;
          t1 = t\<lparr>root := Inner m (es[i := (enlarged (fst (es ! i)) (point_rect p), leaf)]) b s,
                 tree_size := tree_size t + 1\<rparr>
      in if is_full leaf \<and> int (num_entries leaf) > tree_max_entries t
         then split_node t1 [i] else Inr t1)"
proof -
  have i: "i < length es" using assms(2) by (rule best_entry_index)
  have cl: "choose_leaf (root t) (point_rect p) =
      Inr (Inner m (es[i := (enlarged (fst (es ! i)) (point_rect p),
             share_mbr (enlarged (fst (es ! i)) (point_rect p)) (snd (es ! i)))]) b s, [i])"
    using choose_leaf_leaf_child[OF assms(2), of m b s] assms(1,3) by simp
  show ?thesis
    unfolding insert_point_def Let_def cl using i assms(3) by simp
qed

lemma split_node_root:
  assumes "mbr (calculate_mbr (take_entries (num_entries (root t) div 2) (root t))) = Some r1"
    and "mbr (calculate_mbr (new_sibling (tree_max_entries t) (num_entries (root t) div 2) (root t))) = Some r2"
  shows "split_node t [] =
     Inr (t\<lparr>root := Inner (tree_max_entries t)
                [(r1, shared (calculate_mbr (take_entries (num_entries (root t) div 2) (root t)))),
                 (r2, shared (calculate_mbr (new_sibling (tree_max_entries t) (num_entries (root t) div 2) (root t))))]
                (Some (bounding [r1, r2])) False,
            height := height t + 1\<rparr>)"
  using assms by (simp add: split_node_def Let_def)

lemma split_node_child:
  assumes "root t = Inner m es b s" and "i < length es"
  shows "split_node t [i] =
     Inr (t\<lparr>root := Inner m (es[i := (fst (es ! i),
                 calculate_mbr (take_entries (num_entries (snd (es ! i)) div 2) (snd (es ! i))))]) b s\<rparr>)"
  using assms by (simp add: split_node_def Let_def)

lemma collect_cons:
  "collect_inner_loop ((r, c) # es) [] = collect_all_points c [] @ collect_inner_loop es []"
  using collect_acc(2)[of es "collect_all_points c []"] by simp

lemma collect_pair:
  "collect_all_points (Inner m [(r1, n1), (r2, n2)] b s) [] =
     collect_all_points n1 [] @ collect_all_points n2 []"
  using collect_acc(1)[of n2 "collect_all_points n1 []"] by simp

lemma collect_update:
  "i < length es \<Longrightarrow>
   mset (collect_inner_loop (es[i := (r', c')]) []) + mset (collect_all_points (snd (es ! i)) []) =
   mset (collect_inner_loop es []) + mset (collect_all_points c' [])"
proof (induction es arbitrary: i)
  case Nil then show ?case by simp
next
  case (Cons a es)
  obtain r c where a: "a = (r, c)" by (cases a)
  show ?case
  proof (cases i)
    case 0
    then show ?thesis by (simp add: a collect_cons del: collect_all_points.simps collect_inner_loop.simps)
  next
    case (Suc k)
    then have "k < length es" using Cons.prems by simp
    from Cons.IH[OF this] show ?thesis
      by (simp add: a Suc collect_cons del: collect_all_points.simps collect_inner_loop.simps)
  qed
qed

lemma insert_point_leaf_root_built:
  assumes "built t" and "root t = Leaf m es b s"
  shows "\<exists>t'. insert_point t p = Inr t' \<and> built t' \<and> tree_size t' = tree_size t + 1 \<and>
           tree_max_entries t' = tree_max_entries t \<and>
           reachable_points t' = reachable_points t @ [p]"
proof -
  note Leaf = assms(2)
  define leaf where "leaf = calculate_mbr (Leaf m (es @ [(point_rect p, p)]) b s)"
  define t1 where "t1 = t\<lparr>root := leaf, tree_size := tree_size t + 1\<rparr>"
  have sound0: "leaf_sound (Leaf m es b s)" using assms(1) by (simp add: built_def Leaf)
  have sound: "leaf_sound leaf" unfolding leaf_def using sound0 by (rule leaf_sound_append)
  have pts: "collect_all_points leaf [] = reachable_points t @ [p]"
    by (simp add: leaf_def reachable_points_def Leaf)
  have ins: "insert_point t p =
      (if is_full leaf \<and> int (num_entries leaf) > tree_max_entries t then split_node t1 [] else Inr t1)"
    using insert_point_leaf_root[OF Leaf, of p] by (simp add: leaf_def t1_def Let_def)
  show ?thesis
  proof (cases "is_full leaf \<and> int (num_entries leaf) > tree_max_entries t")
    case False
    then have "insert_point t p = Inr t1" unfolding ins by (rule if_not_P)
    moreover have "built t1" using sound by (cases leaf) (simp_all add: built_def t1_def)
    moreover have "reachable_points t1 = reachable_points t @ [p]"
      using pts by (simp add: reachable_points_def t1_def)
    ultimately show ?thesis by (simp add: t1_def)
  next
    case True
    define mid where "mid = num_entries leaf div 2"
    define node where "node = calculate_mbr (take_entries mid leaf)"
    define new_node where "new_node = calculate_mbr (new_sibling (tree_max_entries t) mid leaf)"
    have r: "root t1 = leaf" "tree_max_entries t1 = tree_max_entries t" by (simp_all add: t1_def)
    have "num_entries leaf > 0" by (simp add: leaf_def)
    then have "mid < num_entries leaf" by (simp add: mid_def)
    then obtain r2 where r2: "mbr new_node = Some r2"
      unfolding new_node_def using mbr_sibling by blast
    have "\<exists>r0. mbr leaf = Some r0" by (simp add: leaf_def)
    then obtain r1 where r1: "mbr node = Some r1"
      unfolding node_def using mbr_take by blast
    define t2 where "t2 = t1\<lparr>root := Inner (tree_max_entries t) [(r1, shared node), (r2, shared new_node)]
        (Some (bounding [r1, r2])) False, height := height t1 + 1\<rparr>"
    have "split_node t1 [] = Inr t2"
      using split_node_root[of t1 r1 r2] r1 r2
      by (simp add: r node_def new_node_def mid_def t2_def)
    then have "insert_point t p = Inr t2" unfolding ins using True by (simp only: if_True simp_thms)
    moreover have "built t2"
      using leaf_sound_take[OF sound, of mid] leaf_sound_sibling[OF sound, of "tree_max_entries t" mid]
        leaf_sound_covers[of node r1] leaf_sound_covers[of new_node r2] r1 r2
      by (simp add: built_def t2_def node_def new_node_def)
    moreover have "reachable_points t2 = reachable_points t @ [p]"
    proof -
      have "is_leaf leaf" by (simp add: leaf_def)
      then have "collect_all_points node [] @ collect_all_points new_node [] = collect_all_points leaf []"
        unfolding node_def new_node_def by (rule collect_take_drop)
      then show ?thesis
        using pts by (simp add: reachable_points_def t2_def collect_pair del: collect_all_points.simps)
    qed
    ultimately show ?thesis by (simp add: t2_def t1_def)
  qed
qed

text \<open>
  An insertion that returns keeps the shape, adds one to \<^verbatim>\<open>size\<close> and adds no point
  other than the inserted one to the reachable points; an insertion that raises raises
  the \<open>TypeError\<close> of \<^verbatim>\<open>_choose_leaf\<close>.
\<close>

lemma insert_point_built:
  assumes "built t" and "insert_point t p = Inr t'"
  shows "built t' \<and> tree_size t' = tree_size t + 1 \<and>
           tree_max_entries t' = tree_max_entries t \<and>
           mset (reachable_points t') \<subseteq># add_mset p (mset (reachable_points t))"
proof (cases "root t")
  case (Leaf m es b s)
  obtain t2 where "insert_point t p = Inr t2" "built t2" "tree_size t2 = tree_size t + 1"
      "tree_max_entries t2 = tree_max_entries t" "reachable_points t2 = reachable_points t @ [p]"
    using insert_point_leaf_root_built[OF assms(1) Leaf, of p] by blast
  then show ?thesis using assms(2) by simp
next
  case (Inner m es b s)
  have len: "length es = 2"
    and ent: "\<forall>(r, c) \<in> set es. leaf_sound c \<and> (\<forall>p \<in> set (collect_all_points c []). covers r p)"
    using assms(1) by (simp_all add: built_def Inner)
  obtain i where best: "best_entry (corner_min (point_rect p)) es = Some i"
  proof (cases "best_entry (corner_min (point_rect p)) es")
    case None
    then have "insert_point t p = Inl TypeError" by (simp add: insert_point_def Inner)
    then show ?thesis using assms(2) by simp
  next
    case (Some i)
    then show ?thesis using that by blast
  qed
  have i: "i < length es" using best by (rule best_entry_index)
  define child where "child = snd (es ! i)"
  define er where "er = enlarged (fst (es ! i)) (point_rect p)"
  have mem: "(fst (es ! i), child) \<in> set es" using i by (simp add: child_def)
  have csound: "leaf_sound child"
    and ccov: "\<forall>q \<in> set (collect_all_points child []). covers (fst (es ! i)) q"
    using ent mem by auto
  obtain m' es' b' s' where child: "child = Leaf m' es' b' s'"
    using csound by (cases child) auto
  define leaf where "leaf = Leaf m' (es' @ [(point_rect p, p)])
                   (Some (bounding (map fst (es' @ [(point_rect p, p)])))) False"
  define t1 where "t1 = t\<lparr>root := Inner m (es[i := (er, leaf)]) b s, tree_size := tree_size t + 1\<rparr>"
  have sound: "leaf_sound leaf"
    using csound by (simp add: leaf_def child)
  have pts: "collect_all_points leaf [] = collect_all_points child [] @ [p]"
    by (simp add: leaf_def child)
  have ins: "insert_point t p =
      (if is_full leaf \<and> int (num_entries leaf) > tree_max_entries t then split_node t1 [i] else Inr t1)"
    using insert_point_inner_root[OF Inner best child[unfolded child_def]]
    by (simp add: leaf_def t1_def er_def Let_def)
  have ercov: "\<forall>q \<in> set (collect_all_points leaf []). covers er q"
    using ccov covers_expand covers_expand_new[of "fst (es ! i)" p]
    by (auto simp: pts er_def enlarged_def)
  have final: "\<exists>X. insert_point t p =
        Inr (t\<lparr>root := Inner m (es[i := (er, X)]) b s, tree_size := tree_size t + 1\<rparr>) \<and>
      leaf_sound X \<and> mset (collect_all_points X []) \<subseteq># mset (collect_all_points leaf [])"
  proof (cases "is_full leaf \<and> int (num_entries leaf) > tree_max_entries t")
    case False
    then have "insert_point t p = Inr t1" unfolding ins by (rule if_not_P)
    then show ?thesis using sound by (auto simp: t1_def)
  next
    case True
    define node where "node = calculate_mbr (take_entries (num_entries leaf div 2) leaf)"
    have "split_node t1 [i] = Inr (t1\<lparr>root := Inner m (es[i := (er, node)]) b s\<rparr>)"
      using split_node_child[of t1 m "es[i := (er, leaf)]" b s i] i
      by (simp add: t1_def node_def)
    then have "insert_point t p =
        Inr (t\<lparr>root := Inner m (es[i := (er, node)]) b s, tree_size := tree_size t + 1\<rparr>)"
      unfolding ins using True by (simp only: if_True simp_thms) (simp add: t1_def)
    moreover have "leaf_sound node" unfolding node_def using sound by (rule leaf_sound_take)
    moreover have "mset (collect_all_points node []) \<subseteq># mset (collect_all_points leaf [])"
      unfolding node_def by (rule collect_take_subset) (simp add: leaf_def)
    ultimately show ?thesis by blast
  qed
  then obtain X where res: "insert_point t p =
        Inr (t\<lparr>root := Inner m (es[i := (er, X)]) b s, tree_size := tree_size t + 1\<rparr>)"
    and xsound: "leaf_sound X"
    and xsub: "mset (collect_all_points X []) \<subseteq># mset (collect_all_points leaf [])"
    by blast
  have t': "t' = t\<lparr>root := Inner m (es[i := (er, X)]) b s, tree_size := tree_size t + 1\<rparr>"
    using res assms(2) by simp
  have xcov: "\<forall>q \<in> set (collect_all_points X []). covers er q"
    using ercov set_mset_mono[OF xsub] by auto
  have "\<forall>(r, c) \<in> set (es[i := (er, X)]).
          leaf_sound c \<and> (\<forall>q \<in> set (collect_all_points c []). covers r q)"
  proof (intro ballI)
    fix e assume "e \<in> set (es[i := (er, X)])"
    then have "e = (er, X) \<or> e \<in> set es" using set_update_subset_insert[of es i "(er, X)"] by auto
    then show "case e of (r, c) \<Rightarrow>
        leaf_sound c \<and> (\<forall>q \<in> set (collect_all_points c []). covers r q)"
      using xsound xcov ent by auto
  qed
  then have b': "built t'" using len by (simp add: built_def t')
  have "mset (reachable_points t') + mset (collect_all_points child []) =
        mset (reachable_points t) + mset (collect_all_points X [])"
    using collect_update[OF i, of er X] by (simp add: reachable_points_def t' Inner child_def)
  moreover have "mset (collect_all_points X []) \<subseteq># add_mset p (mset (collect_all_points child []))"
    using xsub by (simp add: pts)
  ultimately have "mset (reachable_points t') + mset (collect_all_points child []) \<subseteq>#
      mset (reachable_points t) + add_mset p (mset (collect_all_points child []))"
    by (metis subset_mset.add_left_mono)
  then have "mset (reachable_points t') \<subseteq># add_mset p (mset (reachable_points t))"
    by simp
  then show ?thesis using b' by (simp add: t')
qed

lemma built_new_tree: "built (new_tree m)"
  by (simp add: built_def new_tree_def)

lemma insert_all_built:
  "built t \<Longrightarrow> insert_all t ps = Inr t' \<Longrightarrow>
   built t' \<and> tree_size t' = tree_size t + int (length ps) \<and>
        tree_max_entries t' = tree_max_entries t \<and>
        mset (reachable_points t') \<subseteq># mset (reachable_points t) + mset ps"
proof (induction ps arbitrary: t)
  case Nil
  then show ?case by simp
next
  case (Cons p ps)
  obtain t1 where ins: "insert_point t p = Inr t1" and rest: "insert_all t1 ps = Inr t'"
    using Cons.prems(2) by (auto split: sum.splits)
  have t1: "built t1" "tree_size t1 = tree_size t + 1"
      "tree_max_entries t1 = tree_max_entries t"
      "mset (reachable_points t1) \<subseteq># add_mset p (mset (reachable_points t))"
    using insert_point_built[OF Cons.prems(1) ins] by simp_all
  have t': "built t'"
      "tree_size t' = tree_size t1 + int (length ps)" "tree_max_entries t' = tree_max_entries t1"
      "mset (reachable_points t') \<subseteq># mset (reachable_points t1) + mset ps"
    using Cons.IH[OF t1(1) rest] by simp_all
  have "mset (reachable_points t1) + mset ps \<subseteq># add_mset p (mset (reachable_points t)) + mset ps"
    using t1(4) by (rule subset_mset.add_right_mono)
  then have "mset (reachable_points t') \<subseteq># mset (reachable_points t) + mset (p # ps)"
    using t'(4) by (simp add: subset_mset.order_trans)
  then show ?case using t1 t' by simp
qed

lemma insert_point_built_error:
  assumes "built t" and "insert_point t p = Inl e"
  shows "e = TypeError"
proof (cases "root t")
  case (Leaf m es b s)
  then show ?thesis using insert_point_leaf_root_built[OF assms(1) Leaf, of p] assms(2) by auto
next
  case (Inner m es b s)
  have ent: "\<forall>(r, c) \<in> set es. leaf_sound c"
    using assms(1) by (auto simp: built_def Inner)
  show ?thesis
  proof (cases "best_entry (corner_min (point_rect p)) es")
    case None
    then show ?thesis using assms(2) by (simp add: insert_point_def Inner)
  next
    case (Some i)
    have i: "i < length es" using Some by (rule best_entry_index)
    then have "(fst (es ! i), snd (es ! i)) \<in> set es" by simp
    then have "leaf_sound (snd (es ! i))" using ent by blast
    then obtain m' es' b' s' where child: "snd (es ! i) = Leaf m' es' b' s'"
      by (cases "snd (es ! i)") auto
    define leaf where "leaf = Leaf m' (es' @ [(point_rect p, p)])
                   (Some (bounding (map fst (es' @ [(point_rect p, p)])))) False"
    define t1 where "t1 = t\<lparr>root := Inner m (es[i := (enlarged (fst (es ! i)) (point_rect p), leaf)]) b s,
        tree_size := tree_size t + 1\<rparr>"
    have ins: "insert_point t p =
      (if is_full leaf \<and> int (num_entries leaf) > tree_max_entries t then split_node t1 [i] else Inr t1)"
      using insert_point_inner_root[OF Inner Some child]
      by (simp add: leaf_def t1_def Let_def)
    have "\<exists>t2. split_node t1 [i] = Inr t2"
      using split_node_child[of t1 m "es[i := (enlarged (fst (es ! i)) (point_rect p), leaf)]" b s i] i
      by (simp add: t1_def)
    then have "\<exists>t2. insert_point t p = Inr t2" unfolding ins by auto
    then show ?thesis using assms(2) by simp
  qed
qed

lemma insert_all_built_error:
  "built t \<Longrightarrow> insert_all t ps = Inl e \<Longrightarrow> e = TypeError"
proof (induction ps arbitrary: t)
  case Nil
  then show ?case by simp
next
  case (Cons p ps)
  show ?case
  proof (cases "insert_point t p")
    case (Inl e')
    then have "e' = TypeError" using Cons.prems(1) insert_point_built_error by blast
    then show ?thesis using Cons.prems(2) Inl by simp
  next
    case (Inr t1)
    then have "built t1" using insert_point_built[OF Cons.prems(1)] by blast
    moreover have "insert_all t1 ps = Inl e" using Cons.prems(2) Inr by simp
    ultimately show ?thesis by (rule Cons.IH)
  qed
qed

lemma leaf_sound_covered: "leaf_sound n \<Longrightarrow> covered n"
  by (cases n) auto

lemma covered_entries_iff:
  "covered_entries es \<longleftrightarrow>
     (\<forall>(r, c) \<in> set es. covered c \<and> (\<forall>p \<in> set (collect_all_points c []). covers r p))"
  by (induction es) auto

lemma built_covered: "built t \<Longrightarrow> covered (root t)"
  by (cases "root t") (auto simp: built_def covered_entries_iff leaf_sound_covered)

text \<open>
  Claim C1. In a tree built from the empty tree by a sequence of insertions (each of
  which returned), \<^verbatim>\<open>range_query\<close> of any rectangle returns exactly the points
  reachable from the root that the rectangle contains, in traversal order and each as
  often as it is reachable; the reachable points are among the inserted ones. The
  hypothesis \<open>min \<le> max\<close> on the query rectangle is not needed, and the coordinates may be
  any floats.
\<close>

theorem range_query_built:
  assumes "insert_all (new_tree m) ps = Inr t"
  shows "range_query t query_rect = filter (contains_point query_rect) (reachable_points t) \<and>
         mset (reachable_points t) \<subseteq># mset ps"
proof -
  have t: "built t"
      "mset (reachable_points t) \<subseteq># mset (reachable_points (new_tree m)) + mset ps"
    using insert_all_built[OF built_new_tree assms] by simp_all
  have "range_query t query_rect = filter (contains_point query_rect) (reachable_points t)"
    using range_search_filter(1)[OF built_covered[OF t(1)], of query_rect "[]"]
    by (simp add: range_query_def reachable_points_def)
  moreover have "mset (reachable_points t) \<subseteq># mset ps"
    using t(2) by (simp add: reachable_points_def new_tree_def)
  ultimately show ?thesis by blast
qed

text \<open>An instance: the scenario tree and the query rectangle \<open>(0, 0, 2, 2)\<close>.\<close>

theorem range_query_built_witness:
  "insert_all (new_tree 4) scenario_points = Inr scenario_tree \<and>
   range_query scenario_tree (fin_rect 0 0 2 2) = [xy_point 0 0, xy_point 1 1, xy_point 2 2]"
proof -
  have a: "insert_all (new_tree 4) scenario_points = Inr scenario_tree"
    by (rule scenario_tree_built)
  have "range_query scenario_tree (fin_rect 0 0 2 2) =
      filter (contains_point (fin_rect 0 0 2 2)) (reachable_points scenario_tree)"
    using range_query_built[OF a] by blast
  also have "\<dots> = [xy_point 0 0, xy_point 1 1, xy_point 2 2]"
    by (simp add: scenario_reachable scenario_points_def contains_point_def xy_point_def fin_rect_def)
  finally show ?thesis using a by blast
qed

text \<open>
  The tree with \<^verbatim>\<open>max_entries = 2\<close> after the insertion of \<open>(0, 0)\<close>, \<open>(0, 1)\<close> and
  \<open>(1, 0)\<close>: the root has two entries, with the rectangles \<open>(0, 0, 0, 0)\<close> and
  \<open>(0, 0, 1, 1)\<close>.
\<close>

definition corner_tree :: rtree where
  "corner_tree =
     \<lparr>tree_max_entries = 2,
      root = Inner 2
        [(fin_rect 0 0 0 0,
          Leaf 2 [(point_rect (xy_point 0 0), xy_point 0 0)] (Some (fin_rect 0 0 0 0)) True),
         (fin_rect 0 0 1 1,
          Leaf 2 [(point_rect (xy_point 0 1), xy_point 0 1), (point_rect (xy_point 1 0), xy_point 1 0)]
            (Some (fin_rect 0 0 1 1)) True)]
        (Some (fin_rect 0 0 1 1)) False,
      tree_size = 3, height = 2\<rparr>"

lemma corner_tree_built:
  "insert_all (new_tree 2) [xy_point 0 0, xy_point 0 1, xy_point 1 0] = Inr corner_tree"
  by (simp add: corner_tree_def eval_defs)




text \<open>While the root is a leaf with room, insertion appends to it.\<close>

lemma insert_all_snoc:
  "insert_all t (ps @ [p]) =
     (case insert_all t ps of Inl e \<Rightarrow> Inl e | Inr t1 \<Rightarrow> insert_point t1 p)"
  by (induction ps arbitrary: t) (auto split: sum.splits)

lemma fill_leaf:
  "root t = Leaf m es b s \<Longrightarrow> tree_max_entries t = m \<Longrightarrow> int (length es + length ps) \<le> m \<Longrightarrow>
   \<exists>b' s'. insert_all t ps =
     Inr (t\<lparr>root := Leaf m (es @ map (\<lambda>p. (point_rect p, p)) ps) b' s',
            tree_size := tree_size t + int (length ps)\<rparr>)"
proof (induction ps arbitrary: t es b s)
  case Nil
  then show ?case by (intro exI[of _ b] exI[of _ s]) simp
next
  case (Cons p ps)
  define leaf where "leaf = calculate_mbr (Leaf m (es @ [(point_rect p, p)]) b s)"
  define t1 where "t1 = t\<lparr>root := leaf, tree_size := tree_size t + 1\<rparr>"
  have "\<not> (int (num_entries leaf) > tree_max_entries t)"
    using Cons.prems by (simp add: leaf_def)
  then have ins: "insert_point t p = Inr t1"
    using insert_point_leaf_root[OF Cons.prems(1), of p] by (simp add: leaf_def t1_def Let_def)
  have "\<exists>b1 s1. root t1 = Leaf m (es @ [(point_rect p, p)]) b1 s1"
    by (auto simp: t1_def leaf_def)
  then obtain b1 s1 where r1: "root t1 = Leaf m (es @ [(point_rect p, p)]) b1 s1"
    by blast
  have "\<exists>b' s'. insert_all t1 ps =
     Inr (t1\<lparr>root := Leaf m ((es @ [(point_rect p, p)]) @ map (\<lambda>p. (point_rect p, p)) ps) b' s',
            tree_size := tree_size t1 + int (length ps)\<rparr>)"
    by (rule Cons.IH[OF r1]) (use Cons.prems in \<open>simp_all add: t1_def\<close>)
  then obtain b' s' where "insert_all t1 ps =
     Inr (t1\<lparr>root := Leaf m ((es @ [(point_rect p, p)]) @ map (\<lambda>p. (point_rect p, p)) ps) b' s',
            tree_size := tree_size t1 + int (length ps)\<rparr>)" by blast
  then have "insert_all t (p # ps) =
     Inr (t\<lparr>root := Leaf m (es @ map (\<lambda>p. (point_rect p, p)) (p # ps)) b' s',
            tree_size := tree_size t + int (length (p # ps))\<rparr>)"
    using ins by (simp add: t1_def add.assoc)
  then show ?case by blast
qed

text \<open>
  Claim C6. For \<open>max_entries = m \<ge> 2\<close>, inserting \<open>m + 1\<close> points into the empty tree
  (whose height is 1) returns a tree of height 2 whose root is not a leaf and has exactly
  two entries; after each of the first \<open>m\<close> insertions the root is still a leaf and the
  height still 1.
\<close>

theorem root_promotion:
  assumes "2 \<le> m" and "length ps = nat m + 1"
  shows "\<exists>t. insert_all (new_tree m) ps = Inr t \<and> height t = 2 \<and>
            \<not> is_leaf (root t) \<and> num_entries (root t) = 2 \<and>
            (\<forall>k \<le> nat m. \<exists>t0. insert_all (new_tree m) (take k ps) = Inr t0 \<and>
                height t0 = 1 \<and> is_leaf (root t0))"
proof -
  have first: "\<exists>b' s'. insert_all (new_tree m) qs =
      Inr ((new_tree m)\<lparr>root := Leaf m (map (\<lambda>p. (point_rect p, p)) qs) b' s',
             tree_size := int (length qs)\<rparr>)" if "length qs \<le> nat m" for qs
    using fill_leaf[of "new_tree m" m "[]" None False qs] that assms(1) by (simp add: new_tree_def)
  have before: "\<forall>k \<le> nat m. \<exists>t0. insert_all (new_tree m) (take k ps) = Inr t0 \<and>
                height t0 = 1 \<and> is_leaf (root t0)"
  proof (intro allI impI)
    fix k assume "k \<le> nat m"
    then have "length (take k ps) \<le> nat m" by simp
    from first[OF this] show "\<exists>t0. insert_all (new_tree m) (take k ps) = Inr t0 \<and>
                height t0 = 1 \<and> is_leaf (root t0)"
      by (auto simp: new_tree_def)
  qed
  define qs where "qs = butlast ps"
  define p where "p = last ps"
  have ps: "ps = qs @ [p]" and lq: "length qs = nat m"
    using assms(2) by (auto simp: qs_def p_def) (metis append_butlast_last_id length_0_conv Zero_not_Suc)
  obtain b0 s0 where t0: "insert_all (new_tree m) qs =
      Inr ((new_tree m)\<lparr>root := Leaf m (map (\<lambda>p. (point_rect p, p)) qs) b0 s0,
             tree_size := int (length qs)\<rparr>)"
    using first[of qs] lq by auto
  define t0 where "t0 = (new_tree m)\<lparr>root := Leaf m (map (\<lambda>p. (point_rect p, p)) qs) b0 s0,
             tree_size := int (length qs)\<rparr>"
  define leaf where "leaf = calculate_mbr (Leaf m (map (\<lambda>p. (point_rect p, p)) qs @ [(point_rect p, p)]) b0 s0)"
  define t1 where "t1 = t0\<lparr>root := leaf, tree_size := tree_size t0 + 1\<rparr>"
  have n: "num_entries leaf = nat m + 1" by (simp add: leaf_def lq)
  have full: "is_full leaf \<and> int (num_entries leaf) > tree_max_entries t0"
    using assms(1) by (simp add: is_full_def n) (simp add: leaf_def t0_def new_tree_def)
  have ins: "insert_point t0 p = split_node t1 []"
    using insert_point_leaf_root[of t0 m "map (\<lambda>p. (point_rect p, p)) qs" b0 s0 p] full
    by (simp add: t0_def leaf_def t1_def Let_def)
  have r: "root t1 = leaf" by (simp add: t1_def)
  have "num_entries leaf div 2 < num_entries leaf" by (simp add: n)
  then obtain r2 where r2: "mbr (calculate_mbr (new_sibling (tree_max_entries t1) (num_entries leaf div 2) leaf)) = Some r2"
    using mbr_sibling by blast
  have "\<exists>r0. mbr leaf = Some r0" by (simp add: leaf_def)
  then obtain r1 where r1: "mbr (calculate_mbr (take_entries (num_entries leaf div 2) leaf)) = Some r1"
    using mbr_take by blast
  obtain t where t: "split_node t1 [] = Inr t" "height t = height t1 + 1"
     "\<not> is_leaf (root t)" "num_entries (root t) = 2"
    using split_node_root[of t1 r1 r2] r1 r2 by (simp add: r)
  have "insert_all (new_tree m) ps = Inr t"
    using t0 ins t(1) by (simp add: ps insert_all_snoc t0_def)
  moreover have "height t = 2" using t(2) by (simp add: t1_def t0_def new_tree_def)
  ultimately show ?thesis using t(3,4) before by blast
qed

text \<open>An instance: the scenario, with \<open>m = 4\<close>.\<close>

theorem root_promotion_witness:
  "(2::int) \<le> 4 \<and> length scenario_points = nat 4 + 1 \<and> height (new_tree 4) = 1 \<and>
   height scenario_tree = 2 \<and> \<not> is_leaf (root scenario_tree) \<and>
   num_entries (root scenario_tree) = 2"
proof -
  have h: "(2::int) \<le> 4" "length scenario_points = nat 4 + 1"
    by (simp_all add: scenario_points_def)
  obtain t where t: "insert_all (new_tree 4) scenario_points = Inr t" "height t = 2"
      "\<not> is_leaf (root t)" "num_entries (root t) = 2"
    using root_promotion[OF h] by blast
  have "t = scenario_tree" using t(1) scenario_tree_built by simp
  moreover have "height (new_tree 4) = 1" by (simp add: new_tree_def)
  ultimately show ?thesis using h t by blast
qed

section \<open>Leaf selection\<close>

text \<open>
  The loop over the entries ends with the first index whose enlargement is least among
  those below \<^verbatim>\<open>float('inf')\<close>, and with \<^verbatim>\<open>None\<close> when there is none: an enlargement
  that is \<^verbatim>\<open>inf\<close> or nan is never taken.
\<close>

lemma enlargement_corner: "enlargement_needed r (corner_min (point_rect p)) = enlargement_needed r p"
  by (simp add: enlargement_needed_def corner_min_def point_rect_def)

lemma best_loop_spec:
  "best_loop p es i0 (m0, b0) = (m, b) \<Longrightarrow>
     (m = m0 \<and> b = b0 \<and> (\<forall>k < length es. \<not> flt (enlargement_needed (fst (es ! k)) p) m0)) \<or>
     (\<exists>k < length es. b = Some (i0 + k) \<and> m = enlargement_needed (fst (es ! k)) p \<and> flt m m0 \<and>
        (\<forall>k' < length es. \<not> flt (enlargement_needed (fst (es ! k')) p) m) \<and>
        (\<forall>k' < k. \<not> fle (enlargement_needed (fst (es ! k')) p) m))"
proof (induction es arbitrary: i0 m0 b0)
  case Nil
  then show ?case by simp
next
  case (Cons a es)
  obtain r c where a: "a = (r, c)" by (cases a)
  let ?en = "enlargement_needed r p"
  show ?case
  proof (cases "flt ?en m0")
    case True
    then have "best_loop p es (Suc i0) (?en, Some i0) = (m, b)"
      using Cons.prems by (simp add: a Let_def)
    from Cons.IH[OF this] show ?thesis
    proof
      assume h: "m = ?en \<and> b = Some i0 \<and> (\<forall>k < length es. \<not> flt (enlargement_needed (fst (es ! k)) p) ?en)"
      then have "0 < length (a # es) \<and> b = Some (i0 + 0) \<and>
        m = enlargement_needed (fst ((a # es) ! 0)) p \<and> flt m m0 \<and>
        (\<forall>k' < length (a # es). \<not> flt (enlargement_needed (fst ((a # es) ! k')) p) m) \<and>
        (\<forall>k' < (0::nat). \<not> fle (enlargement_needed (fst ((a # es) ! k')) p) m)"
        using True by (auto simp: a nth_Cons')
      then show ?thesis by blast
    next
      assume "\<exists>k < length es. b = Some (Suc i0 + k) \<and> m = enlargement_needed (fst (es ! k)) p \<and>
        flt m ?en \<and>
        (\<forall>k' < length es. \<not> flt (enlargement_needed (fst (es ! k')) p) m) \<and>
        (\<forall>k' < k. \<not> fle (enlargement_needed (fst (es ! k')) p) m)"
      then obtain k where k: "k < length es" "b = Some (Suc i0 + k)"
        "m = enlargement_needed (fst (es ! k)) p" "flt m ?en"
        "\<forall>k' < length es. \<not> flt (enlargement_needed (fst (es ! k')) p) m"
        "\<forall>k' < k. \<not> fle (enlargement_needed (fst (es ! k')) p) m"
        by auto
      have f1: "flt m m0" using k(4) True by (rule flt_trans)
      have f2: "\<not> flt ?en m" using k(4) flt_trans flt_irrefl by blast
      have f3: "\<not> fle ?en m" using k(4) by (rule flt_not_fle)
      have "Suc k < length (a # es) \<and> b = Some (i0 + Suc k) \<and>
        m = enlargement_needed (fst ((a # es) ! Suc k)) p \<and> flt m m0 \<and>
        (\<forall>k' < length (a # es). \<not> flt (enlargement_needed (fst ((a # es) ! k')) p) m) \<and>
        (\<forall>k' < Suc k. \<not> fle (enlargement_needed (fst ((a # es) ! k')) p) m)"
        using k f1 f2 f3 by (auto simp: a nth_Cons' less_Suc_eq_0_disj)
      then show ?thesis by blast
    qed
  next
    case False
    then have "best_loop p es (Suc i0) (m0, b0) = (m, b)"
      using Cons.prems by (simp add: a Let_def)
    from Cons.IH[OF this] show ?thesis
    proof
      assume "m = m0 \<and> b = b0 \<and> (\<forall>k < length es. \<not> flt (enlargement_needed (fst (es ! k)) p) m0)"
      then have "m = m0 \<and> b = b0 \<and>
          (\<forall>k < length (a # es). \<not> flt (enlargement_needed (fst ((a # es) ! k)) p) m0)"
        using False by (auto simp: a nth_Cons')
      then show ?thesis by blast
    next
      assume "\<exists>k < length es. b = Some (Suc i0 + k) \<and> m = enlargement_needed (fst (es ! k)) p \<and>
        flt m m0 \<and>
        (\<forall>k' < length es. \<not> flt (enlargement_needed (fst (es ! k')) p) m) \<and>
        (\<forall>k' < k. \<not> fle (enlargement_needed (fst (es ! k')) p) m)"
      then obtain k where k: "k < length es" "b = Some (Suc i0 + k)"
        "m = enlargement_needed (fst (es ! k)) p" "flt m m0"
        "\<forall>k' < length es. \<not> flt (enlargement_needed (fst (es ! k')) p) m"
        "\<forall>k' < k. \<not> fle (enlargement_needed (fst (es ! k')) p) m"
        by auto
      have f2: "\<not> flt ?en m" using k(4) False flt_trans by blast
      have f3: "\<not> fle ?en m" using k(4) False fle_flt_trans by blast
      have "Suc k < length (a # es) \<and> b = Some (i0 + Suc k) \<and>
        m = enlargement_needed (fst ((a # es) ! Suc k)) p \<and> flt m m0 \<and>
        (\<forall>k' < length (a # es). \<not> flt (enlargement_needed (fst ((a # es) ! k')) p) m) \<and>
        (\<forall>k' < Suc k. \<not> fle (enlargement_needed (fst ((a # es) ! k')) p) m)"
        using k f2 f3 by (auto simp: a nth_Cons' less_Suc_eq_0_disj)
      then show ?thesis by blast
    qed
  qed
qed

lemma best_entry_some:
  assumes "best_entry p es = Some i"
  shows "i < length es \<and> flt (enlargement_needed (fst (es ! i)) p) PInf \<and>
     (\<forall>j < length es. \<not> flt (enlargement_needed (fst (es ! j)) p) (enlargement_needed (fst (es ! i)) p)) \<and>
     (\<forall>j < i. \<not> fle (enlargement_needed (fst (es ! j)) p) (enlargement_needed (fst (es ! i)) p))"
proof -
  obtain m where "best_loop p es 0 (PInf, None) = (m, Some i)"
    using assms by (cases "best_loop p es 0 (PInf, None)") (simp add: best_entry_def)
  from best_loop_spec[OF this] show ?thesis by auto
qed

lemma best_entry_none:
  assumes "best_entry p es = None"
  shows "\<forall>j < length es. \<not> flt (enlargement_needed (fst (es ! j)) p) PInf"
proof -
  obtain m where "best_loop p es 0 (PInf, None) = (m, None)"
    using assms by (cases "best_loop p es 0 (PInf, None)") (simp add: best_entry_def)
  from best_loop_spec[OF this] show ?thesis by auto
qed




section \<open>Splitting a node that is not the root\<close>

lemma collect_append:
  "collect_inner_loop (xs @ ys) [] = collect_inner_loop xs [] @ collect_inner_loop ys []"
proof (induction xs)
  case Nil then show ?case by simp
next
  case (Cons a xs)
  obtain r c where a: "a = (r, c)" by (cases a)
  show ?case using Cons.IH
    by (simp add: a collect_cons del: collect_all_points.simps collect_inner_loop.simps)
qed

lemma collect_split:
  "collect_all_points (calculate_mbr (take_entries k n)) [] @
     collect_all_points (calculate_mbr (new_sibling tm k n)) [] = collect_all_points n []"
proof (cases n)
  case (Leaf m es b s)
  then show ?thesis by (auto simp flip: map_append)
next
  case (Inner m es b s)
  have "collect_inner_loop (take k es) [] @ collect_inner_loop (drop k es) [] = collect_inner_loop es []"
    using collect_append[of "take k es" "drop k es"] by simp
  then show ?thesis by (auto simp: Inner)
qed

lemma collect_update_at:
  "node_at n0 path = Some n \<Longrightarrow>
   mset (collect_all_points (update_at path n' n0) []) + mset (collect_all_points n []) =
   mset (collect_all_points n0 []) + mset (collect_all_points n' [])"
proof (induction path arbitrary: n0)
  case Nil
  then show ?case by (simp add: add.commute)
next
  case (Cons i path)
  obtain m es b s where n0: "n0 = Inner m es b s" and i: "i < length es"
    and sub: "node_at (snd (es ! i)) path = Some n"
    using Cons.prems by (cases n0) (auto split: if_splits)
  define u where "u = update_at path n' (snd (es ! i))"
  have ih: "mset (collect_all_points u []) + mset (collect_all_points n []) =
      mset (collect_all_points (snd (es ! i)) []) + mset (collect_all_points n' [])"
    unfolding u_def by (rule Cons.IH[OF sub])
  have up: "mset (collect_inner_loop (es[i := (fst (es ! i), u)]) []) +
        mset (collect_all_points (snd (es ! i)) []) =
      mset (collect_inner_loop es []) + mset (collect_all_points u [])"
    by (rule collect_update[OF i])
  have "mset (collect_inner_loop (es[i := (fst (es ! i), u)]) []) + mset (collect_all_points n []) +
          mset (collect_all_points (snd (es ! i)) []) =
        mset (collect_inner_loop es []) + mset (collect_all_points n' []) +
          mset (collect_all_points (snd (es ! i)) [])"
    using ih up by (metis (no_types, lifting) add.assoc add.commute)
  then have "mset (collect_inner_loop (es[i := (fst (es ! i), u)]) []) + mset (collect_all_points n []) =
        mset (collect_inner_loop es []) + mset (collect_all_points n' [])"
    by simp
  then show ?case using i by (simp add: n0 u_def)
qed

lemma node_at_update_at:
  "node_at n0 path = Some n \<Longrightarrow> node_at (update_at path n' n0) path = Some n'"
proof (induction path arbitrary: n0)
  case Nil then show ?case by simp
next
  case (Cons i path)
  then show ?case by (cases n0) (auto split: if_splits)
qed

text \<open>
  Claim C2. \<^verbatim>\<open>_split_node\<close> on a node \<open>n\<close> that is not the root returns a tree that
  differs from the old one only at the path of \<open>n\<close>, where \<open>n\<close> keeps its first
  \<open>len div 2\<close> entries: no entry for the new sibling is added anywhere. The points under
  the sibling (for a leaf, those of the entries from index \<open>len div 2\<close> on) are lost from
  the reachable points, counted with multiplicity, while \<^verbatim>\<open>size\<close> and \<^verbatim>\<open>height\<close>
  stay as they were.
\<close>

theorem split_non_root_loses_sibling:
  assumes "path \<noteq> []" and "node_at (root t) path = Some n"
  shows "\<exists>node new_node t'.
      node = calculate_mbr (take_entries (num_entries n div 2) n) \<and>
      new_node = calculate_mbr (new_sibling (tree_max_entries t) (num_entries n div 2) n) \<and>
      split_node t path = Inr t' \<and>
      t' = t\<lparr>root := update_at path node (root t)\<rparr> \<and>
      node_at (root t') path = Some node \<and>
      tree_size t' = tree_size t \<and> height t' = height t \<and>
      mset (reachable_points t') + mset (collect_all_points new_node []) =
        mset (reachable_points t) \<and>
      (\<forall>m es b s. n = Leaf m es b s \<longrightarrow>
         collect_all_points new_node [] = map snd (drop (length es div 2) es))"
proof -
  define node where "node = calculate_mbr (take_entries (num_entries n div 2) n)"
  define new_node where
    "new_node = calculate_mbr (new_sibling (tree_max_entries t) (num_entries n div 2) n)"
  define t' where "t' = t\<lparr>root := update_at path node (root t)\<rparr>"
  have s: "split_node t path = Inr t'"
    using assms by (simp add: split_node_def Let_def node_def t'_def)
  have a: "mset (reachable_points t') + mset (collect_all_points n []) =
      mset (reachable_points t) + mset (collect_all_points node [])"
    using collect_update_at[OF assms(2), of node] by (simp add: reachable_points_def t'_def)
  have "mset (collect_all_points node []) + mset (collect_all_points new_node []) =
      mset (collect_all_points n [])"
    using collect_split[of "num_entries n div 2" n "tree_max_entries t"]
    by (metis mset_append node_def new_node_def)
  then have "mset (reachable_points t') + mset (collect_all_points new_node []) +
        mset (collect_all_points node []) =
      mset (reachable_points t) + mset (collect_all_points node [])"
    using a by (metis (no_types, lifting) add.assoc add.commute)
  then have b: "mset (reachable_points t') + mset (collect_all_points new_node []) =
      mset (reachable_points t)"
    by simp
  have c: "\<forall>m es b s. n = Leaf m es b s \<longrightarrow>
      collect_all_points new_node [] = map snd (drop (length es div 2) es)"
    by (auto simp: new_node_def)
  have d: "node_at (root t') path = Some node"
    using node_at_update_at[OF assms(2), of node] by (simp add: t'_def)
  show ?thesis
    using s b c d by (intro exI[of _ node] exI[of _ new_node] exI[of _ t']) (simp add: node_def new_node_def t'_def)
qed

text \<open>An instance: splitting the second leaf of the scenario tree loses two of its three points.\<close>

theorem split_non_root_loses_sibling_witness:
  "[1::nat] \<noteq> [] \<and>
   node_at (root scenario_tree) [1] =
     Some (Leaf 4 [(point_rect (xy_point 2 2), xy_point 2 2), (point_rect (xy_point 3 3), xy_point 3 3),
                  (point_rect (xy_point 4 4), xy_point 4 4)]
            (Some (fin_rect 2 2 4 4)) True) \<and>
   (\<exists>t'. split_node scenario_tree [1] = Inr t' \<and> tree_size t' = 5 \<and>
      reachable_points t' = [xy_point 0 0, xy_point 1 1, xy_point 2 2])"
proof -
  let ?n = "Leaf 4 [(point_rect (xy_point 2 2), xy_point 2 2), (point_rect (xy_point 3 3), xy_point 3 3),
                  (point_rect (xy_point 4 4), xy_point 4 4)]
            (Some (fin_rect 2 2 4 4)) True"
  have h1: "[1::nat] \<noteq> []" by simp
  have h2: "node_at (root scenario_tree) [1] = Some ?n" by (simp add: scenario_tree_def)
  obtain t' where t': "split_node scenario_tree [1] = Inr t'"
      "t' = scenario_tree\<lparr>root := update_at [1] (calculate_mbr (take_entries (num_entries ?n div 2) ?n))
             (root scenario_tree)\<rparr>"
      "tree_size t' = tree_size scenario_tree"
    using split_non_root_loses_sibling[OF h1 h2] by blast
  have "reachable_points t' = [xy_point 0 0, xy_point 1 1, xy_point 2 2]"
    unfolding t'(2) by (simp add: scenario_tree_def reachable_points_def)
  moreover have "tree_size t' = 5" using t'(3) by (simp add: scenario_tree_def)
  ultimately show ?thesis using h1 h2 t'(1) by blast
qed

text \<open>
  The same loss through \<^verbatim>\<open>insert\<close>: after the scenario, the points \<open>(9, 9)\<close> and
  \<open>(8, 8)\<close> go to the second leaf, which overflows and is split below the root. Seven
  points are counted, four are reachable.
\<close>

lemma insertion_loses_points:
  "case insert_all (new_tree 4) (scenario_points @ [xy_point 9 9, xy_point 8 8]) of
     Inl e \<Rightarrow> False
   | Inr t \<Rightarrow> tree_size t = 7 \<and>
       reachable_points t = [xy_point 0 0, xy_point 1 1, xy_point 2 2, xy_point 3 3]"
  by (simp add: scenario_points_def eval_defs reachable_points_def)

section \<open>Cached bounding rectangles\<close>

text \<open>
  \<open>mbr_sound\<close>: every node of the subtree that has entries caches the bounding rectangle
  of the rectangles of its own entries.
\<close>

fun mbr_sound :: "rtree_node \<Rightarrow> bool"
  and mbr_sound_entries :: "(rectangle \<times> rtree_node) list \<Rightarrow> bool" where
  "mbr_sound (Leaf m es b s) = (es \<noteq> [] \<longrightarrow> b = Some (bounding (map fst es)))"
| "mbr_sound (Inner m es b s) =
     ((es \<noteq> [] \<longrightarrow> b = Some (bounding (map fst es))) \<and> mbr_sound_entries es)"
| "mbr_sound_entries [] = True"
| "mbr_sound_entries ((r, child) # es) = (mbr_sound child \<and> mbr_sound_entries es)"

lemma leaf_sound_mbr_sound: "leaf_sound n \<Longrightarrow> mbr_sound n"
  by (cases n) auto

text \<open>The leaves of a tree built by insertion always cache the right rectangle.\<close>

lemma built_leaves_mbr_sound:
  assumes "insert_all (new_tree m) ps = Inr t"
  shows "case root t of
          Leaf m' es b s \<Rightarrow> mbr_sound (root t)
        | Inner m' es b s \<Rightarrow> \<forall>(r, c) \<in> set es. mbr_sound c"
proof -
  have "built t" using insert_all_built[OF built_new_tree assms] by simp
  then show ?thesis by (cases "root t") (auto simp: built_def dest: leaf_sound_mbr_sound)
qed

text \<open>
  Claim C5 fails on the code for the root. After the scenario the root caches
  \<open>(0, 0, 4, 4)\<close>. Inserting \<open>(9, 9)\<close> enlarges the rectangle of the root's second entry
  to \<open>(2, 2, 9, 9)\<close> in \<^verbatim>\<open>_choose_leaf\<close>, without a split, and nothing recomputes the
  root's \<^verbatim>\<open>mbr\<close>: the bounding rectangle of the root's entries is \<open>(0, 0, 9, 9)\<close>.
\<close>

theorem root_mbr_stale:
  "case insert_all (new_tree 4) (scenario_points @ [xy_point 9 9]) of
     Inl e \<Rightarrow> False
   | Inr t \<Rightarrow> mbr (root t) = Some (fin_rect 0 0 4 4) \<and>
             bounding (entry_rects (root t)) = fin_rect 0 0 9 9 \<and>
             \<not> mbr_sound (root t)"
  by (simp add: scenario_points_def eval_defs)

section \<open>Paths returned by leaf selection\<close>

text \<open>
  \<^verbatim>\<open>_choose_leaf\<close> returns a leaf of the tree it was given, and it raises nothing but
  the \<open>TypeError\<close> of an inner node where no entry is picked. So \<open>InvalidReference\<close>,
  the model's value for a path that addresses no leaf, is never the result of an insertion.
\<close>

lemma node_at_share_mbr:
  "node_at n path = Some (Leaf m es b s) \<Longrightarrow> \<exists>b'. node_at (share_mbr r n) path = Some (Leaf m es b' s)"
  by (cases path; cases n) auto

lemma choose_leaf_path:
  "choose_leaf n rect = Inr (n', path) \<Longrightarrow> \<exists>m es b s. node_at n' path = Some (Leaf m es b s)"
proof (induction n rect arbitrary: n' path rule: choose_leaf.induct)
  case (1 m es b s rect)
  then show ?case by auto
next
  case (2 m es b s rect)
  obtain i where best: "best_entry (corner_min rect) es = Some i"
    using "2.prems" by (auto split: option.splits)
  have i: "i < length es" using best by (rule best_entry_index)
  obtain child rest where sub: "choose_leaf (snd (es ! i)) rect = Inr (child, rest)"
    and res: "n' = Inner m (es[i := (enlarged (fst (es ! i)) rect,
                 share_mbr (enlarged (fst (es ! i)) rect) child)]) b s" "path = i # rest"
    using "2.prems" best by (auto simp: Let_def enlarged_def split: sum.splits)
  obtain m' es' b' s' where "node_at child rest = Some (Leaf m' es' b' s')"
    using "2.IH"[OF best refl sub] by blast
  then obtain b'' where "node_at (share_mbr (enlarged (fst (es ! i)) rect) child) rest = Some (Leaf m' es' b'' s')"
    using node_at_share_mbr by blast
  then show ?case using i by (simp add: res)
qed

lemma choose_leaf_error: "choose_leaf n rect = Inl e \<Longrightarrow> e = TypeError"
proof (induction n rect rule: choose_leaf.induct)
  case (1 m es b s rect)
  then show ?case by simp
next
  case (2 m es b s rect)
  show ?case
  proof (cases "best_entry (corner_min rect) es")
    case None
    then show ?thesis using "2.prems" by simp
  next
    case (Some i)
    then have "choose_leaf (snd (es ! i)) rect = Inl e"
      using "2.prems" by (auto simp: Let_def split: sum.splits)
    then show ?thesis using "2.IH"[OF Some refl] by blast
  qed
qed

lemma split_node_reference_valid:
  "node_at (root t) path = Some n \<Longrightarrow> split_node t path \<noteq> Inl InvalidReference"
  by (auto simp: split_node_def Let_def split: option.splits)

lemma insert_point_reference_valid: "insert_point t p \<noteq> Inl InvalidReference"
proof (cases "choose_leaf (root t) (point_rect p)")
  case (Inl e)
  then have "e = TypeError" by (rule choose_leaf_error)
  then show ?thesis using Inl by (simp add: insert_point_def)
next
  case (Inr r)
  obtain root1 path where r: "r = (root1, path)" by (cases r)
  obtain m es b s where leaf: "node_at root1 path = Some (Leaf m es b s)"
    using choose_leaf_path[OF Inr[unfolded r]] by blast
  define leaf' where "leaf' = calculate_mbr (Leaf m (es @ [(point_rect p, p)]) b s)"
  define t1 where "t1 = t\<lparr>root := update_at path leaf' root1, tree_size := tree_size t + 1\<rparr>"
  have "node_at (root t1) path = Some leaf'"
    using node_at_update_at[OF leaf, of leaf'] by (simp add: t1_def)
  then have "split_node t1 path \<noteq> Inl InvalidReference" by (rule split_node_reference_valid)
  then show ?thesis
    using Inr leaf by (simp add: insert_point_def r Let_def leaf'_def t1_def)
qed

end
